theory Spec2Isabelle
  imports Main
begin

section \<open>Collaborator types used by the dispatcher\<close>

text \<open>
  The dispatcher (\<^verbatim>\<open>ATen/core/dispatch/Dispatcher.cpp\<close>) owns a list of operator
  definitions, a name index over that list, a table of backend fallback kernels and a list
  of registration listeners.  The types it only uses (schemas, kernels, dispatch keys, the
  per-operator entry) are declared in other files; each is modelled here by exactly the
  observations the dispatcher makes of it.  A name of the source that ends in an
  underscore is written without it (\<open>operators\<close> for \<^verbatim>\<open>operators_\<close>,
  \<open>deregisterDef\<close> for \<^verbatim>\<open>deregisterDef_\<close>).
\<close>

type_synonym DispatchKey = nat
  \<comment> \<open>a \<^verbatim>\<open>uint8_t\<close> enumeration; \<open>0\<close> is \<^verbatim>\<open>DispatchKey::Undefined\<close>\<close>

type_synonym addr = nat
  \<comment> \<open>the identity of a \<^verbatim>\<open>std::list\<close> node: what a list iterator denotes\<close>

type_synonym OperatorName = "string \<times> string"
  \<comment> \<open>base name and overload name, compared structurally\<close>

type_synonym listener = nat
  \<comment> \<open>the identity of an \<^verbatim>\<open>OpRegistrationListener\<close> object\<close>

datatype AliasAnalysisKind = INTERNAL_SPECIAL_CASE | CONSERVATIVE | FROM_SCHEMA | PURE_FUNCTION

text \<open>
  Modelled from the spec: \<^verbatim>\<open>FunctionSchema\<close> is declared outside this file.  The
  dispatcher calls \<^verbatim>\<open>operator_name()\<close>, \<^verbatim>\<open>operator==\<close>,
  \<^verbatim>\<open>isDefaultAliasAnalysisKind()\<close> and \<^verbatim>\<open>aliasAnalysis()\<close> on it; the spec asks of a
  schema "structural equality" and "an alias-analysis-kind value with a distinguished
  default/unspecified marker".  The two alias accessors are kept as independent
  observations, so nothing is assumed about the kind a default schema reports.
\<close>

record FunctionSchema =
  operator_name :: OperatorName
  signature :: string
  isDefaultAliasAnalysisKind :: bool
  aliasAnalysis :: AliasAnalysisKind

text \<open>
  Modelled from the spec: \<^verbatim>\<open>FunctionSchema::operator==\<close>, the structural equality the
  spec lists apart from the alias-analysis compatibility: name and signature.
\<close>

definition schema_eq :: "FunctionSchema \<Rightarrow> FunctionSchema \<Rightarrow> bool" where
  "schema_eq s t \<longleftrightarrow> operator_name s = operator_name t \<and> signature s = signature t"

text \<open>
  Modelled from the spec: \<^verbatim>\<open>KernelFunction\<close> is "an opaque callable plus a boolean
  is-trivial-pass-through flag".
\<close>

record KernelFunction =
  kernel_functor :: nat
  isFallthrough :: bool

text \<open>
  Modelled from the spec: a kernel registration of an operator entry, kept "under the
  given tag" (\<open>kernel_key\<close>; \<open>None\<close> is the catch-all slot).  \<open>kernel_node\<close> is the
  identity of the list node that holds it.
\<close>

record KernelEntry =
  kernel_node :: addr
  kernel_key :: "DispatchKey option"
  kernel :: KernelFunction
  inferred_function_schema :: "FunctionSchema option"
  debug :: string

text \<open>
  Modelled from the spec: \<^verbatim>\<open>impl::OperatorEntry\<close> is declared outside this file.  It
  holds the operator's name, its optional schema and its kernels; a kernel entry is found
  again through the list iterator \<^verbatim>\<open>registerKernel\<close> returned (here \<open>kernel_node\<close>).
\<close>

record OperatorEntry =
  name :: OperatorName
  schema :: "FunctionSchema option"
  kernels :: "KernelEntry list"

text \<open>
  The failures of the dispatcher.  The first three are the \<^verbatim>\<open>TORCH_CHECK\<close>s a caller
  can catch; \<open>InternalAssert\<close> is a failed \<^verbatim>\<open>TORCH_INTERNAL_ASSERT\<close>; \<open>DanglingHandle\<close>
  stands for the use of a handle whose list node has been erased, to which C++ gives no
  meaning.  Every operation returns its result together with the state it leaves behind,
  as an exception leaves what was written before it was thrown.
\<close>

datatype error =
    SchemaConflict
  | AliasAnalysisConflict
  | DuplicateFallback
  | InternalAssert
  | DanglingHandle

text \<open>
  Modelled from the spec: the constructor and the accessors of \<^verbatim>\<open>OperatorEntry\<close> that the
  dispatcher calls.  A definition "attaches the schema"; when the last definition goes,
  the schema is removed.
\<close>

definition OperatorEntry_new :: "OperatorName \<Rightarrow> OperatorEntry" where
  "OperatorEntry_new n = \<lparr>name = n, schema = None, kernels = []\<rparr>"

definition hasSchema :: "OperatorEntry \<Rightarrow> bool" where
  "hasSchema e \<longleftrightarrow> schema e \<noteq> None"

definition registerSchema :: "FunctionSchema \<Rightarrow> OperatorEntry \<Rightarrow> OperatorEntry" where
  "registerSchema s e = e\<lparr>schema := Some s\<rparr>"

definition deregisterSchema :: "OperatorEntry \<Rightarrow> OperatorEntry" where
  "deregisterSchema e = e\<lparr>schema := None\<rparr>"

definition new_kernel ::
  "addr \<Rightarrow> DispatchKey option \<Rightarrow> KernelFunction \<Rightarrow> FunctionSchema option \<Rightarrow> string
     \<Rightarrow> KernelEntry" where
  "new_kernel h k kf inferred dbg =
     \<lparr>kernel_node = h, kernel_key = k, kernel = kf, inferred_function_schema = inferred,
      debug = dbg\<rparr>"

text \<open>
  Modelled from the spec: \<^verbatim>\<open>registerKernel\<close> "appends the kernel to the entry's table under the given tag (or the
  catch-all slot if no tag given)" and returns the iterator of the new entry, which is
  the address \<open>fresh\<close> here; \<^verbatim>\<open>deregisterKernel_\<close> "removes the specific kernel entry from
  the table" and asserts that it finds it.
\<close>

definition registerKernel ::
  "addr \<Rightarrow> DispatchKey option \<Rightarrow> KernelFunction \<Rightarrow> FunctionSchema option \<Rightarrow> string
     \<Rightarrow> OperatorEntry \<Rightarrow> OperatorEntry" where
  "registerKernel fresh k kf inferred dbg e =
     e\<lparr>kernels := kernels e @ [new_kernel fresh k kf inferred dbg]\<rparr>"

definition deregisterKernel ::
  "DispatchKey option \<Rightarrow> addr \<Rightarrow> OperatorEntry \<Rightarrow> error + OperatorEntry" where
  "deregisterKernel k h e =
     (if \<exists>ke \<in> set (kernels e). kernel_node ke = h \<and> kernel_key ke = k
      then Inr (e\<lparr>kernels := filter (\<lambda>ke. kernel_node ke \<noteq> h) (kernels e)\<rparr>)
      else Inl InternalAssert)"

text \<open>
  Modelled from the spec: \<^verbatim>\<open>prepareForDeregistration\<close> "asserts the entry carries no lingering obligations (no
  schema, no kernels)".
\<close>

definition prepareForDeregistration :: "OperatorEntry \<Rightarrow> bool" where
  "prepareForDeregistration e \<longleftrightarrow> schema e = None \<and> kernels e = []"

text \<open>
  \<^verbatim>\<open>Dispatcher::OperatorDef\<close>: the entry and its two reference counts.  The counts are
  \<^verbatim>\<open>size_t\<close> in the source and every decrement is guarded by an assertion that the
  count is positive; they are natural numbers here, since a count cannot reach \<open>2^64\<close>
  while every unit of it is a token held in memory.
\<close>

record OperatorDef =
  op :: OperatorEntry
  def_count :: nat
  def_and_impl_count :: nat

definition OperatorDef_new :: "OperatorName \<Rightarrow> OperatorDef" where
  "OperatorDef_new n = \<lparr>op = OperatorEntry_new n, def_count = 0, def_and_impl_count = 0\<rparr>"

section \<open>The dispatcher state\<close>

text \<open>
  \<open>operators\<close> is the \<^verbatim>\<open>std::list<OperatorDef>\<close>: the addresses of its nodes in list
  order, with the node contents in \<open>nodes\<close>.  An \<^verbatim>\<open>OperatorHandle\<close> is an iterator of
  that list, that is a node address.  \<open>next_addr\<close> is the allocator: every new list node
  gets an address never used before.

  Modelled from the spec: \<^verbatim>\<open>DispatchKeySet\<close> is "a fixed, enumerable,
  bitset-representable universe of tags with has/add/remove operations and a full set
  constant": a set of dispatch keys, with \<open>UNIV\<close> for \<^verbatim>\<open>DispatchKeySet::FULL\<close>.
\<close>

record Registry =
  operators :: "addr list"
  nodes :: "addr \<rightharpoonup> OperatorDef"
  operatorLookupTable :: "OperatorName \<rightharpoonup> addr"
  backendFallbackKernels :: "DispatchKey \<rightharpoonup> KernelFunction"
  backendsWithoutFallthrough :: "DispatchKey set"
  listeners :: "listener list"
  next_addr :: addr

text \<open>
  What the dispatcher does beyond changing its tables is recorded in a trace: taking and
  leaving \<^verbatim>\<open>mutex_\<close> (a \<^verbatim>\<open>std::lock_guard\<close>), and every call of a listener, together
  with the registry as the listener finds it during the call.
\<close>

datatype effect =
    LockAcquired
  | LockReleased
  | OnOperatorRegistered listener addr Registry
  | OnOperatorDeregistered listener addr Registry

record Dispatcher = Registry +
  trace :: "effect list"

text \<open>
  What the closure of a \<^verbatim>\<open>RegistrationHandleRAII\<close> captures: the handle and the name
  for a definition; the handle, the name, the dispatch key and the kernel iterator for a
  kernel; the dispatch key for a fallback.
\<close>

datatype Token =
    DefToken addr OperatorName
  | ImplToken addr OperatorName "DispatchKey option" addr
  | FallbackToken DispatchKey

definition Dispatcher_init :: Dispatcher where
  "Dispatcher_init =
     \<lparr>operators = [], nodes = Map.empty, operatorLookupTable = Map.empty,
      backendFallbackKernels = Map.empty, backendsWithoutFallthrough = UNIV,
      listeners = [], next_addr = 0, trace = []\<rparr>"

definition snapshot :: "Dispatcher \<Rightarrow> Registry" where
  "snapshot st =
     \<lparr>operators = operators st, nodes = nodes st,
      operatorLookupTable = operatorLookupTable st,
      backendFallbackKernels = backendFallbackKernels st,
      backendsWithoutFallthrough = backendsWithoutFallthrough st,
      listeners = listeners st, next_addr = next_addr st\<rparr>"

definition emit :: "effect \<Rightarrow> Dispatcher \<Rightarrow> Dispatcher" where
  "emit e st = st\<lparr>trace := trace st @ [e]\<rparr>"

section \<open>Listener list\<close>

fun callOnOperatorRegistered_loop :: "listener list \<Rightarrow> addr \<Rightarrow> Dispatcher \<Rightarrow> Dispatcher" where
  "callOnOperatorRegistered_loop [] h st = st"
| "callOnOperatorRegistered_loop (l # ls) h st =
     callOnOperatorRegistered_loop ls h (emit (OnOperatorRegistered l h (snapshot st)) st)"

definition callOnOperatorRegistered :: "addr \<Rightarrow> Dispatcher \<Rightarrow> Dispatcher" where
  "callOnOperatorRegistered h st = callOnOperatorRegistered_loop (listeners st) h st"

fun callOnOperatorDeregistered_loop :: "listener list \<Rightarrow> addr \<Rightarrow> Dispatcher \<Rightarrow> Dispatcher" where
  "callOnOperatorDeregistered_loop [] h st = st"
| "callOnOperatorDeregistered_loop (l # ls) h st =
     callOnOperatorDeregistered_loop ls h (emit (OnOperatorDeregistered l h (snapshot st)) st)"

definition callOnOperatorDeregistered :: "addr \<Rightarrow> Dispatcher \<Rightarrow> Dispatcher" where
  "callOnOperatorDeregistered h st = callOnOperatorDeregistered_loop (listeners st) h st"

section \<open>Lookup\<close>

definition findOperatorByName :: "OperatorName \<Rightarrow> 'a Registry_scheme \<Rightarrow> addr option" where
  "findOperatorByName overload_name st = operatorLookupTable st overload_name"

text \<open>
  \<^verbatim>\<open>it->hasSchema()\<close> dereferences the handle.  A handle in the lookup table always
  denotes a node of the list; for a handle that does not, C++ gives no meaning and the
  model answers "no schema".
\<close>

definition handle_hasSchema :: "addr \<Rightarrow> 'a Registry_scheme \<Rightarrow> bool" where
  "handle_hasSchema h st = (case nodes st h of None \<Rightarrow> False | Some d \<Rightarrow> hasSchema (op d))"

definition findSchema :: "OperatorName \<Rightarrow> 'a Registry_scheme \<Rightarrow> addr option" where
  "findSchema overload_name st =
     (case findOperatorByName overload_name st of
        Some h \<Rightarrow> (if handle_hasSchema h st then Some h else None)
      | None \<Rightarrow> None)"

definition findOrRegisterName :: "OperatorName \<Rightarrow> Dispatcher \<Rightarrow> addr \<times> Dispatcher" where
  "findOrRegisterName op_name st =
     (case findOperatorByName op_name st of
        Some h \<Rightarrow> (h, st)
      | None \<Rightarrow>
          (let h = next_addr st in
           (h, st\<lparr>operators := operators st @ [h],
                  nodes := (nodes st)(h \<mapsto> OperatorDef_new op_name),
                  operatorLookupTable := (operatorLookupTable st)(op_name \<mapsto> h),
                  next_addr := Suc h\<rparr>)))"

section \<open>Registering and deregistering definitions\<close>

text \<open>
  \<^verbatim>\<open>op.schema()\<close> asserts that the entry has a schema.  The three \<^verbatim>\<open>TORCH_CHECK\<close>s of
  \<^verbatim>\<open>checkSchemaCompatibility\<close> follow in the order of the source.
\<close>

definition checkSchemaCompatibility :: "OperatorDef \<Rightarrow> FunctionSchema \<Rightarrow> error + unit" where
  "checkSchemaCompatibility d new_schema =
     (case schema (op d) of
        None \<Rightarrow> Inl InternalAssert
      | Some op_schema \<Rightarrow>
          if \<not> schema_eq op_schema new_schema then Inl SchemaConflict
          else if isDefaultAliasAnalysisKind new_schema then Inr ()
          else if isDefaultAliasAnalysisKind op_schema then
            (if aliasAnalysis op_schema = aliasAnalysis new_schema then Inr ()
             else Inl AliasAnalysisConflict)
          else
            (if aliasAnalysis op_schema = aliasAnalysis new_schema then Inr ()
             else Inl AliasAnalysisConflict))"

definition registerDef :: "FunctionSchema \<Rightarrow> Dispatcher \<Rightarrow> (error + Token) \<times> Dispatcher" where
  "registerDef new_schema st0 =
     (let st1 = emit LockAcquired st0;
          op_name = operator_name new_schema;
          (h, st2) = findOrRegisterName op_name st1
      in case nodes st2 h of
           None \<Rightarrow> (Inl DanglingHandle, emit LockReleased st2)
         | Some d \<Rightarrow>
             (case (if def_count d = 0
                    then Inr (callOnOperatorRegistered h
                           (st2\<lparr>nodes := (nodes st2)(h \<mapsto> d\<lparr>op := registerSchema new_schema (op d)\<rparr>)\<rparr>))
                    else (case checkSchemaCompatibility d new_schema of
                            Inl e \<Rightarrow> Inl e
                          | Inr _ \<Rightarrow> Inr st2)) of
                Inl e \<Rightarrow> (Inl e, emit LockReleased st2)
              | Inr st3 \<Rightarrow>
                  (case nodes st3 h of
                     None \<Rightarrow> (Inl DanglingHandle, emit LockReleased st3)
                   | Some d3 \<Rightarrow>
                       (Inr (DefToken h op_name),
                        emit LockReleased
                          (st3\<lparr>nodes := (nodes st3)(h \<mapsto>
                                  d3\<lparr>def_count := def_count d3 + 1,
                                     def_and_impl_count := def_and_impl_count d3 + 1\<rparr>)\<rparr>)))))"

text \<open>Test if the operator entry is completely dead, and if so remove it completely.\<close>

definition cleanup :: "addr \<Rightarrow> OperatorName \<Rightarrow> Dispatcher \<Rightarrow> (error + unit) \<times> Dispatcher" where
  "cleanup h op_name st =
     (case nodes st h of
        None \<Rightarrow> (Inl DanglingHandle, st)
      | Some d \<Rightarrow>
          if 0 = def_and_impl_count d then
            (if prepareForDeregistration (op d) then
               (Inr (),
                st\<lparr>operators := removeAll h (operators st),
                   nodes := (nodes st)(h := None),
                   operatorLookupTable := (operatorLookupTable st)(op_name := None)\<rparr>)
             else (Inl InternalAssert, st))
          else (Inr (), st))"

definition deregisterDef :: "addr \<Rightarrow> OperatorName \<Rightarrow> Dispatcher \<Rightarrow> (error + unit) \<times> Dispatcher" where
  "deregisterDef h op_name st0 =
     (let st1 = emit LockAcquired st0 in
      case nodes st1 h of
        None \<Rightarrow> (Inl DanglingHandle, emit LockReleased st1)
      | Some d \<Rightarrow>
          (case schema (op d) of
             None \<Rightarrow> (Inl InternalAssert, emit LockReleased st1)
           | Some s \<Rightarrow>
               if operator_name s \<noteq> op_name then (Inl InternalAssert, emit LockReleased st1)
               else if \<not> def_count d > 0 then (Inl InternalAssert, emit LockReleased st1)
               else if \<not> def_and_impl_count d > 0 then (Inl InternalAssert, emit LockReleased st1)
               else
                 (let d1 = d\<lparr>def_count := def_count d - 1,
                             def_and_impl_count := def_and_impl_count d - 1\<rparr>;
                      st2 = st1\<lparr>nodes := (nodes st1)(h \<mapsto> d1)\<rparr>;
                      st3 = (if 0 = def_count d1
                             then (let st' = callOnOperatorDeregistered h st2 in
                                   st'\<lparr>nodes := (nodes st')(h \<mapsto> d1\<lparr>op := deregisterSchema (op d1)\<rparr>)\<rparr>)
                             else st2);
                      (r, st4) = cleanup h op_name st3
                  in (r, emit LockReleased st4))))"

section \<open>Registering and deregistering kernels\<close>

definition registerImpl ::
  "OperatorName \<Rightarrow> DispatchKey option \<Rightarrow> KernelFunction \<Rightarrow> FunctionSchema option \<Rightarrow> string
     \<Rightarrow> Dispatcher \<Rightarrow> (error + Token) \<times> Dispatcher" where
  "registerImpl op_name dispatch_key kf inferred dbg st0 =
     (let st1 = emit LockAcquired st0;
          (h, st2) = findOrRegisterName op_name st1
      in case nodes st2 h of
           None \<Rightarrow> (Inl DanglingHandle, emit LockReleased st2)
         | Some d \<Rightarrow>
             (let handle = next_addr st2;
                  d1 = d\<lparr>op := registerKernel handle dispatch_key kf inferred dbg (op d)\<rparr>;
                  d2 = d1\<lparr>def_and_impl_count := def_and_impl_count d1 + 1\<rparr>
              in (Inr (ImplToken h op_name dispatch_key handle),
                  emit LockReleased
                    (st2\<lparr>nodes := (nodes st2)(h \<mapsto> d2), next_addr := Suc handle\<rparr>))))"

definition deregisterImpl ::
  "addr \<Rightarrow> OperatorName \<Rightarrow> DispatchKey option \<Rightarrow> addr \<Rightarrow> Dispatcher
     \<Rightarrow> (error + unit) \<times> Dispatcher" where
  "deregisterImpl h op_name dispatch_key handle st0 =
     (let st1 = emit LockAcquired st0 in
      case nodes st1 h of
        None \<Rightarrow> (Inl DanglingHandle, emit LockReleased st1)
      | Some d \<Rightarrow>
          (case deregisterKernel dispatch_key handle (op d) of
             Inl e \<Rightarrow> (Inl e, emit LockReleased st1)
           | Inr e1 \<Rightarrow>
               (let d1 = d\<lparr>op := e1\<rparr>;
                    st2 = st1\<lparr>nodes := (nodes st1)(h \<mapsto> d1)\<rparr>
                in if name (op d1) \<noteq> op_name then (Inl InternalAssert, emit LockReleased st2)
                   else if \<not> def_and_impl_count d1 > 0 then (Inl InternalAssert, emit LockReleased st2)
                   else
                     (let st3 = st2\<lparr>nodes := (nodes st2)(h \<mapsto>
                                      d1\<lparr>def_and_impl_count := def_and_impl_count d1 - 1\<rparr>)\<rparr>;
                          (r, st4) = cleanup h op_name st3
                      in (r, emit LockReleased st4)))))"

section \<open>Backend fallbacks\<close>

text \<open>
  Modelled from the spec: \<^verbatim>\<open>impl::KernelFunctionTable\<close> (\<^verbatim>\<open>setKernel\<close>,
  \<^verbatim>\<open>removeKernelIfExists\<close>, \<^verbatim>\<open>operator[]\<close>) is declared outside this file.  The spec
  describes the fallback table as a mapping from backend tag to at most one kernel, where
  a second kernel for a tag is "enforced, not silently replaced" and a rejected
  registration leaves "counters and tables exactly as before": \<open>setKernel\<close> on an occupied
  slot reports that no new kernel was added and leaves the slot as it is.
\<close>

datatype SetKernelResult = ADDED_NEW_KERNEL | KERNEL_ALREADY_REGISTERED

datatype RemoveKernelIfExistsResult = REMOVED_KERNEL | KERNEL_NOT_FOUND

definition setKernel ::
  "DispatchKey \<Rightarrow> KernelFunction \<Rightarrow> (DispatchKey \<rightharpoonup> KernelFunction)
     \<Rightarrow> SetKernelResult \<times> (DispatchKey \<rightharpoonup> KernelFunction)" where
  "setKernel k kf t =
     (case t k of
        None \<Rightarrow> (ADDED_NEW_KERNEL, t(k \<mapsto> kf))
      | Some _ \<Rightarrow> (KERNEL_ALREADY_REGISTERED, t))"

definition removeKernelIfExists ::
  "DispatchKey \<Rightarrow> (DispatchKey \<rightharpoonup> KernelFunction)
     \<Rightarrow> RemoveKernelIfExistsResult \<times> (DispatchKey \<rightharpoonup> KernelFunction)" where
  "removeKernelIfExists k t =
     (case t k of
        None \<Rightarrow> (KERNEL_NOT_FOUND, t)
      | Some _ \<Rightarrow> (REMOVED_KERNEL, t(k := None)))"

text \<open>
  \<^verbatim>\<open>backendFallbackKernels_[k]\<close>: an empty slot holds a default-constructed kernel, which
  is not a fallthrough.
\<close>

definition slot_isFallthrough :: "(DispatchKey \<rightharpoonup> KernelFunction) \<Rightarrow> DispatchKey \<Rightarrow> bool" where
  "slot_isFallthrough t k = (case t k of None \<Rightarrow> False | Some kf \<Rightarrow> isFallthrough kf)"

text \<open>
  Neither of the two fallback operations constructs a \<^verbatim>\<open>std::lock_guard\<close>.
  \<^verbatim>\<open>registerFallback\<close> asks \<^verbatim>\<open>kernel.isFallthrough()\<close> after the kernel has been moved
  into \<^verbatim>\<open>setKernel\<close>; the model reads the flag of the kernel as it was passed in.
\<close>

definition registerFallback ::
  "DispatchKey \<Rightarrow> KernelFunction \<Rightarrow> Dispatcher \<Rightarrow> (error + Token) \<times> Dispatcher" where
  "registerFallback dispatchKey kf st0 =
     (let (inserted, t) = setKernel dispatchKey kf (backendFallbackKernels st0);
          st1 = st0\<lparr>backendFallbackKernels := t\<rparr>
      in if inserted \<noteq> ADDED_NEW_KERNEL then (Inl DuplicateFallback, st1)
         else
           (let st2 = (if isFallthrough kf
                       then st1\<lparr>backendsWithoutFallthrough :=
                                  backendsWithoutFallthrough st1 - {dispatchKey}\<rparr>
                       else st1)
            in (Inr (FallbackToken dispatchKey), st2)))"

definition deregisterFallback :: "DispatchKey \<Rightarrow> Dispatcher \<Rightarrow> (error + unit) \<times> Dispatcher" where
  "deregisterFallback dispatchKey st0 =
     (let (result, t) = removeKernelIfExists dispatchKey (backendFallbackKernels st0);
          st1 = st0\<lparr>backendFallbackKernels := t\<rparr>;
          st2 = st1\<lparr>backendsWithoutFallthrough :=
                     insert dispatchKey (backendsWithoutFallthrough st1)\<rparr>
      in if result \<noteq> REMOVED_KERNEL then (Inl InternalAssert, st2) else (Inr (), st2))"

section \<open>Listeners and the invariant check\<close>

fun replay_registered :: "listener \<Rightarrow> addr list \<Rightarrow> Dispatcher \<Rightarrow> Dispatcher" where
  "replay_registered l [] st = st"
| "replay_registered l (iter # rest) st =
     (case nodes st iter of
        None \<Rightarrow> replay_registered l rest st
      | Some d \<Rightarrow>
          if def_count d > 0
          then replay_registered l rest (emit (OnOperatorRegistered l iter (snapshot st)) st)
          else replay_registered l rest st)"

definition addRegistrationListener :: "listener \<Rightarrow> Dispatcher \<Rightarrow> Dispatcher" where
  "addRegistrationListener l st0 =
     (let st1 = emit LockAcquired st0;
          st2 = replay_registered l (operators st1) st1;
          st3 = st2\<lparr>listeners := listeners st2 @ [l]\<rparr>
      in emit LockReleased st3)"

text \<open>
  \<^verbatim>\<open>OperatorEntry::checkInvariants\<close> is the collaborator's own check and is a parameter
  here; so is \<^verbatim>\<open>static_cast<uint8_t>(DispatchKey::NumDispatchKeys)\<close>.  The counter of the
  second loop starts at 1 and stops below that bound, so its \<^verbatim>\<open>uint8_t\<close> increment never
  wraps.
\<close>

fun checkEntries :: "(OperatorEntry \<Rightarrow> bool) \<Rightarrow> addr list \<Rightarrow> Dispatcher \<Rightarrow> bool" where
  "checkEntries entryCheck [] st = True"
| "checkEntries entryCheck (iter # rest) st =
     (case nodes st iter of
        None \<Rightarrow> checkEntries entryCheck rest st
      | Some d \<Rightarrow> entryCheck (op d) \<and> checkEntries entryCheck rest st)"

function checkFallthroughs :: "nat \<Rightarrow> nat \<Rightarrow> Dispatcher \<Rightarrow> error + unit" where
  "checkFallthroughs i NumDispatchKeys st =
     (if i < NumDispatchKeys then
        (if i \<notin> backendsWithoutFallthrough st then
           (if slot_isFallthrough (backendFallbackKernels st) i
            then checkFallthroughs (Suc i) NumDispatchKeys st
            else Inl InternalAssert)
         else checkFallthroughs (Suc i) NumDispatchKeys st)
      else Inr ())"
  by pat_completeness auto
termination
  by (relation "measure (\<lambda>(i, n, st). n - i)") auto

declare checkFallthroughs.simps [simp del]

definition checkInvariants :: "(OperatorEntry \<Rightarrow> bool) \<Rightarrow> nat \<Rightarrow> Dispatcher \<Rightarrow> error + unit" where
  "checkInvariants entryCheck NumDispatchKeys st =
     (if checkEntries entryCheck (operators st) st
      then checkFallthroughs 1 NumDispatchKeys st
      else Inl InternalAssert)"

section \<open>Registration tokens and runs of the dispatcher\<close>

text \<open>
  A \<^verbatim>\<open>RegistrationHandleRAII\<close> holds the closure that undoes one registration; destroying
  the token runs it.
\<close>

fun release :: "Token \<Rightarrow> Dispatcher \<Rightarrow> (error + unit) \<times> Dispatcher" where
  "release (DefToken h op_name) st = deregisterDef h op_name st"
| "release (ImplToken h op_name dispatch_key handle) st =
     deregisterImpl h op_name dispatch_key handle st"
| "release (FallbackToken dispatchKey) st = deregisterFallback dispatchKey st"

text \<open>
  The states the dispatcher can be in, with the tokens that are still alive: every token
  comes from a registration and is released at most once.
\<close>

inductive reachable :: "Dispatcher \<Rightarrow> Token list \<Rightarrow> bool" where
  init: "reachable Dispatcher_init []"
| def_ok:
    "reachable st toks \<Longrightarrow> registerDef s st = (Inr tok, st') \<Longrightarrow> reachable st' (tok # toks)"
| def_rejected:
    "reachable st toks \<Longrightarrow> registerDef s st = (Inl e, st') \<Longrightarrow> reachable st' toks"
| impl_ok:
    "reachable st toks \<Longrightarrow> registerImpl n k kf inferred dbg st = (Inr tok, st')
       \<Longrightarrow> reachable st' (tok # toks)"
| impl_rejected:
    "reachable st toks \<Longrightarrow> registerImpl n k kf inferred dbg st = (Inl e, st')
       \<Longrightarrow> reachable st' toks"
| fallback_ok:
    "reachable st toks \<Longrightarrow> registerFallback k kf st = (Inr tok, st')
       \<Longrightarrow> reachable st' (tok # toks)"
| fallback_rejected:
    "reachable st toks \<Longrightarrow> registerFallback k kf st = (Inl e, st') \<Longrightarrow> reachable st' toks"
| released:
    "reachable st toks \<Longrightarrow> tok \<in> set toks \<Longrightarrow> release tok st = (r, st')
       \<Longrightarrow> reachable st' (remove1 tok toks)"
| listener_added:
    "reachable st toks \<Longrightarrow> reachable (addRegistrationListener l st) toks"

section \<open>The invariant of the reachable states\<close>

text \<open>
  Which tokens belong to a node, and what a live token needs in order to be released: its
  node, under the name it was registered for, and (for a kernel) its entry in the node's
  kernel list; for a fallback, the occupied slot.
\<close>

fun tok_is_def :: "addr \<Rightarrow> Token \<Rightarrow> bool" where
  "tok_is_def a (DefToken h n) = (h = a)"
| "tok_is_def a (ImplToken h n k kh) = False"
| "tok_is_def a (FallbackToken k) = False"

fun tok_is_impl :: "addr \<Rightarrow> Token \<Rightarrow> bool" where
  "tok_is_impl a (DefToken h n) = False"
| "tok_is_impl a (ImplToken h n k kh) = (h = a)"
| "tok_is_impl a (FallbackToken k) = False"

fun impl_nodes :: "Token list \<Rightarrow> addr list" where
  "impl_nodes [] = []"
| "impl_nodes (ImplToken h n k kh # ts) = kh # impl_nodes ts"
| "impl_nodes (DefToken h n # ts) = impl_nodes ts"
| "impl_nodes (FallbackToken k # ts) = impl_nodes ts"

fun fallback_keys :: "Token list \<Rightarrow> DispatchKey list" where
  "fallback_keys [] = []"
| "fallback_keys (FallbackToken k # ts) = k # fallback_keys ts"
| "fallback_keys (DefToken h n # ts) = fallback_keys ts"
| "fallback_keys (ImplToken h n k kh # ts) = fallback_keys ts"

fun token_name :: "Token \<Rightarrow> OperatorName option" where
  "token_name (DefToken h n) = Some n"
| "token_name (ImplToken h n k kh) = Some n"
| "token_name (FallbackToken k) = None"

fun tok_ok :: "Dispatcher \<Rightarrow> Token \<Rightarrow> bool" where
  "tok_ok st (DefToken h n) =
     (case nodes st h of None \<Rightarrow> False | Some d \<Rightarrow> name (op d) = n)"
| "tok_ok st (ImplToken h n k kh) =
     (case nodes st h of
        None \<Rightarrow> False
      | Some d \<Rightarrow> name (op d) = n \<and> kh < next_addr st
          \<and> (\<exists>ke \<in> set (kernels (op d)). kernel_node ke = kh \<and> kernel_key ke = k))"
| "tok_ok st (FallbackToken k) = (backendFallbackKernels st k \<noteq> None)"

definition node_wf :: "Dispatcher \<Rightarrow> addr \<Rightarrow> OperatorDef \<Rightarrow> bool" where
  "node_wf st a d \<longleftrightarrow>
     a < next_addr st \<and> a \<in> set (operators st)
     \<and> operatorLookupTable st (name (op d)) = Some a"

definition node_counts :: "Token list \<Rightarrow> addr \<Rightarrow> OperatorDef \<Rightarrow> bool" where
  "node_counts toks a d \<longleftrightarrow>
     def_count d = length (filter (tok_is_def a) toks)
     \<and> def_and_impl_count d = def_count d + length (filter (tok_is_impl a) toks)
     \<and> 0 < def_and_impl_count d
     \<and> (schema (op d) = None \<longleftrightarrow> def_count d = 0)
     \<and> (\<forall>s. schema (op d) = Some s \<longrightarrow> operator_name s = name (op d))
     \<and> (\<forall>ke \<in> set (kernels (op d)).
           ImplToken a (name (op d)) (kernel_key ke) (kernel_node ke) \<in> set toks)"

definition inv :: "Dispatcher \<Rightarrow> Token list \<Rightarrow> bool" where
  "inv st toks \<longleftrightarrow>
     distinct (operators st)
     \<and> (\<forall>a \<in> set (operators st). nodes st a \<noteq> None)
     \<and> (\<forall>a d. nodes st a = Some d \<longrightarrow> node_wf st a d \<and> node_counts toks a d)
     \<and> (\<forall>n a. operatorLookupTable st n = Some a \<longrightarrow>
            (\<exists>d. nodes st a = Some d \<and> name (op d) = n))
     \<and> (\<forall>t \<in> set toks. tok_ok st t)
     \<and> distinct (impl_nodes toks) \<and> distinct (fallback_keys toks)
     \<and> (\<forall>k. k \<notin> backendsWithoutFallthrough st \<longrightarrow>
            slot_isFallthrough (backendFallbackKernels st) k)"

section \<open>Observations used in the statements\<close>

definition is_callback :: "effect \<Rightarrow> bool" where
  "is_callback e =
     (case e of
        OnOperatorRegistered l h seen \<Rightarrow> True
      | OnOperatorDeregistered l h seen \<Rightarrow> True
      | LockAcquired \<Rightarrow> False
      | LockReleased \<Rightarrow> False)"

definition callbacks :: "effect list \<Rightarrow> effect list" where
  "callbacks tr = filter is_callback tr"

definition def_count_of :: "OperatorName \<Rightarrow> Dispatcher \<Rightarrow> nat" where
  "def_count_of n st =
     (case findOperatorByName n st of
        None \<Rightarrow> 0
      | Some h \<Rightarrow> (case nodes st h of None \<Rightarrow> 0 | Some d \<Rightarrow> def_count d))"

definition defined_operators :: "Dispatcher \<Rightarrow> addr list" where
  "defined_operators st =
     filter (\<lambda>a. case nodes st a of None \<Rightarrow> False | Some d \<Rightarrow> 0 < def_count d) (operators st)"

section \<open>Sample inputs\<close>

definition ex_add :: OperatorName where
  "ex_add = (''pkg::add'', [])"

definition ex_default :: FunctionSchema where
  "ex_default =
     \<lparr>operator_name = ex_add, signature = ''(int a, int b) -> int'',
      isDefaultAliasAnalysisKind = True, aliasAnalysis = CONSERVATIVE\<rparr>"

definition ex_from_schema :: FunctionSchema where
  "ex_from_schema =
     \<lparr>operator_name = ex_add, signature = ''(int a, int b) -> int'',
      isDefaultAliasAnalysisKind = False, aliasAnalysis = FROM_SCHEMA\<rparr>"

definition ex_conservative :: FunctionSchema where
  "ex_conservative =
     \<lparr>operator_name = ex_add, signature = ''(int a, int b) -> int'',
      isDefaultAliasAnalysisKind = False, aliasAnalysis = CONSERVATIVE\<rparr>"

definition ex_fallthrough :: KernelFunction where
  "ex_fallthrough = \<lparr>kernel_functor = 1, isFallthrough = True\<rparr>"

definition ex_cpu_kernel :: KernelFunction where
  "ex_cpu_kernel = \<lparr>kernel_functor = 2, isFallthrough = False\<rparr>"

definition ex_add_node :: OperatorDef where
  "ex_add_node =
     \<lparr>op = \<lparr>name = ex_add, schema = Some ex_default, kernels = []\<rparr>,
      def_count = 1, def_and_impl_count = 1\<rparr>"

definition ex_defined :: Dispatcher where
  "ex_defined = snd (registerDef ex_default Dispatcher_init)"

definition ex_with_fallback :: Dispatcher where
  "ex_with_fallback = snd (registerFallback 1 ex_fallthrough ex_defined)"

definition ex_listening :: Dispatcher where
  "ex_listening = snd (registerDef ex_default (addRegistrationListener 5 Dispatcher_init))"

section \<open>Auxiliary facts\<close>

subsection \<open>Tokens\<close>

lemma filter_mem_pos: "t \<in> set ts \<Longrightarrow> P t \<Longrightarrow> 0 < length (filter P ts)"
  by (induction ts) auto

lemma filter_remove1_length:
  "t \<in> set ts \<Longrightarrow>
     length (filter P (remove1 t ts)) = length (filter P ts) - (if P t then 1 else 0)"
proof (induction ts)
  case Nil
  then show ?case by simp
next
  case (Cons a ts)
  show ?case
  proof (cases "t = a")
    case True
    then show ?thesis by simp
  next
    case False
    with Cons.prems have mem: "t \<in> set ts" by simp
    have "P t \<Longrightarrow> 0 < length (filter P ts)"
      using mem by (rule filter_mem_pos)
    with False Cons.IH [OF mem] show ?thesis by auto
  qed
qed

lemma impl_nodes_mem:
  "kh \<in> set (impl_nodes ts) \<longleftrightarrow> (\<exists>h n k. ImplToken h n k kh \<in> set ts)"
  by (induction ts rule: impl_nodes.induct) auto

lemma fallback_keys_mem:
  "k \<in> set (fallback_keys ts) \<longleftrightarrow> FallbackToken k \<in> set ts"
  by (induction ts rule: fallback_keys.induct) auto

lemma impl_nodes_remove1:
  "distinct (impl_nodes ts) \<Longrightarrow> distinct (impl_nodes (remove1 t ts))
     \<and> set (impl_nodes (remove1 t ts)) \<subseteq> set (impl_nodes ts)"
  by (induction ts rule: impl_nodes.induct) auto

lemma fallback_keys_remove1:
  "distinct (fallback_keys ts) \<Longrightarrow> distinct (fallback_keys (remove1 t ts))
     \<and> set (fallback_keys (remove1 t ts)) \<subseteq> set (fallback_keys ts)"
  by (induction ts rule: fallback_keys.induct) auto

lemma impl_nodes_memI: "ImplToken h n k kh \<in> set ts \<Longrightarrow> kh \<in> set (impl_nodes ts)"
  by (induction ts rule: impl_nodes.induct) auto

lemma fallback_keys_memI: "FallbackToken k \<in> set ts \<Longrightarrow> k \<in> set (fallback_keys ts)"
  by (induction ts rule: fallback_keys.induct) auto

lemma impl_nodes_remove1_notin:
  "distinct (impl_nodes ts) \<Longrightarrow> ImplToken h n k kh \<in> set ts
     \<Longrightarrow> kh \<notin> set (impl_nodes (remove1 (ImplToken h n k kh) ts))"
  by (induction ts rule: impl_nodes.induct) (auto dest: impl_nodes_memI)

lemma fallback_keys_remove1_notin:
  "distinct (fallback_keys ts) \<Longrightarrow> FallbackToken k \<in> set ts
     \<Longrightarrow> k \<notin> set (fallback_keys (remove1 (FallbackToken k) ts))"
  by (induction ts rule: fallback_keys.induct) (auto dest: fallback_keys_memI)

lemma impl_token_unique:
  "distinct (impl_nodes ts) \<Longrightarrow> ImplToken h n k kh \<in> set ts
     \<Longrightarrow> ImplToken h' n' k' kh \<in> set (remove1 (ImplToken h n k kh) ts) \<Longrightarrow> False"
  using impl_nodes_remove1_notin impl_nodes_memI by blast

lemma fallback_token_unique:
  "distinct (fallback_keys ts) \<Longrightarrow> FallbackToken k \<in> set ts
     \<Longrightarrow> FallbackToken k \<in> set (remove1 (FallbackToken k) ts) \<Longrightarrow> False"
  using fallback_keys_remove1_notin fallback_keys_memI by blast


subsection \<open>What each operation does to the tables\<close>

lemma snapshot_emit [simp]: "snapshot (emit e st) = snapshot st"
  by (simp add: snapshot_def emit_def)

lemma callOnOperatorRegistered_loop_eq:
  "callOnOperatorRegistered_loop ls h st =
     st\<lparr>trace := trace st @ map (\<lambda>l. OnOperatorRegistered l h (snapshot st)) ls\<rparr>"
  by (induction ls arbitrary: st) (simp_all add: emit_def snapshot_def)

lemma callOnOperatorDeregistered_loop_eq:
  "callOnOperatorDeregistered_loop ls h st =
     st\<lparr>trace := trace st @ map (\<lambda>l. OnOperatorDeregistered l h (snapshot st)) ls\<rparr>"
  by (induction ls arbitrary: st) (simp_all add: emit_def snapshot_def)

lemmas call_eqs = callOnOperatorRegistered_def callOnOperatorRegistered_loop_eq
  callOnOperatorDeregistered_def callOnOperatorDeregistered_loop_eq

lemmas regdef_defs = registerDef_def findOrRegisterName_def findOperatorByName_def Let_def emit_def
  call_eqs OperatorDef_new_def OperatorEntry_new_def registerSchema_def

lemma registerDef_fresh:
  assumes "operatorLookupTable st (operator_name s) = None"
  shows "fst (registerDef s st) = Inr (DefToken (next_addr st) (operator_name s))"
    and "operators (snd (registerDef s st)) = operators st @ [next_addr st]"
    and "nodes (snd (registerDef s st)) = (nodes st)(next_addr st \<mapsto>
            \<lparr>op = \<lparr>name = operator_name s, schema = Some s, kernels = []\<rparr>,
             def_count = 1, def_and_impl_count = 1\<rparr>)"
    and "operatorLookupTable (snd (registerDef s st)) =
           (operatorLookupTable st)(operator_name s \<mapsto> next_addr st)"
    and "next_addr (snd (registerDef s st)) = Suc (next_addr st)"
    and "backendFallbackKernels (snd (registerDef s st)) = backendFallbackKernels st"
    and "backendsWithoutFallthrough (snd (registerDef s st)) = backendsWithoutFallthrough st"
    and "listeners (snd (registerDef s st)) = listeners st"
  using assms by (simp_all add: regdef_defs)

lemma registerDef_existing:
  assumes "operatorLookupTable st (operator_name s) = Some h" "nodes st h = Some d"
    and "def_count d = 0 \<or> checkSchemaCompatibility d s = Inr ()"
  shows "fst (registerDef s st) = Inr (DefToken h (operator_name s))"
    and "operators (snd (registerDef s st)) = operators st"
    and "nodes (snd (registerDef s st)) = (nodes st)(h \<mapsto>
            d\<lparr>op := (if def_count d = 0 then (op d)\<lparr>schema := Some s\<rparr> else op d),
              def_count := def_count d + 1,
              def_and_impl_count := def_and_impl_count d + 1\<rparr>)"
    and "operatorLookupTable (snd (registerDef s st)) = operatorLookupTable st"
    and "next_addr (snd (registerDef s st)) = next_addr st"
    and "backendFallbackKernels (snd (registerDef s st)) = backendFallbackKernels st"
    and "backendsWithoutFallthrough (snd (registerDef s st)) = backendsWithoutFallthrough st"
    and "listeners (snd (registerDef s st)) = listeners st"
  using assms by (auto simp add: regdef_defs)

lemma registerDef_error:
  "fst (registerDef s st) = Inl e \<Longrightarrow> snapshot (snd (registerDef s st)) = snapshot st"
  by (auto simp add: regdef_defs snapshot_def
      split: option.splits sum.splits if_splits prod.splits)

lemma registerDef_ok_existing:
  assumes "fst (registerDef s st) = Inr tok"
    and "operatorLookupTable st (operator_name s) = Some h" "nodes st h = Some d"
  shows "def_count d = 0 \<or> checkSchemaCompatibility d s = Inr ()"
  using assms by (auto simp add: regdef_defs split: sum.splits if_splits)


subsection \<open>The invariant\<close>

lemma filter_remove1_other: "\<not> P t \<Longrightarrow> filter P (remove1 t ts) = filter P ts"
  by (induction ts) auto

lemma invD:
  assumes "inv st toks"
  shows "distinct (operators st)"
    and "a \<in> set (operators st) \<Longrightarrow> nodes st a \<noteq> None"
    and "nodes st a = Some d \<Longrightarrow> node_wf st a d"
    and "nodes st a = Some d \<Longrightarrow> node_counts toks a d"
    and "operatorLookupTable st n = Some a \<Longrightarrow> \<exists>d. nodes st a = Some d \<and> name (op d) = n"
    and "t \<in> set toks \<Longrightarrow> tok_ok st t"
    and "distinct (impl_nodes toks)"
    and "distinct (fallback_keys toks)"
    and "k \<notin> backendsWithoutFallthrough st \<Longrightarrow> slot_isFallthrough (backendFallbackKernels st) k"
  using assms unfolding inv_def by blast+

lemma invI:
  assumes "distinct (operators st)"
    and "\<And>a. a \<in> set (operators st) \<Longrightarrow> nodes st a \<noteq> None"
    and "\<And>a d. nodes st a = Some d \<Longrightarrow> node_wf st a d"
    and "\<And>a d. nodes st a = Some d \<Longrightarrow> node_counts toks a d"
    and "\<And>n a. operatorLookupTable st n = Some a \<Longrightarrow> \<exists>d. nodes st a = Some d \<and> name (op d) = n"
    and "\<And>t. t \<in> set toks \<Longrightarrow> tok_ok st t"
    and "distinct (impl_nodes toks)"
    and "distinct (fallback_keys toks)"
    and "\<And>k. k \<notin> backendsWithoutFallthrough st \<Longrightarrow> slot_isFallthrough (backendFallbackKernels st) k"
  shows "inv st toks"
  using assms unfolding inv_def by blast

lemma inv_init: "inv Dispatcher_init []"
  by (simp add: inv_def Dispatcher_init_def)

lemma tok_ok_frame:
  "nodes st' = nodes st \<Longrightarrow> next_addr st' = next_addr st
    \<Longrightarrow> backendFallbackKernels st' = backendFallbackKernels st \<Longrightarrow> tok_ok st' t = tok_ok st t"
  by (cases t) (simp_all split: option.splits)

lemma inv_frame:
  assumes "operators st' = operators st" "nodes st' = nodes st"
    "operatorLookupTable st' = operatorLookupTable st" "next_addr st' = next_addr st"
    "backendFallbackKernels st' = backendFallbackKernels st"
    "backendsWithoutFallthrough st' = backendsWithoutFallthrough st"
  shows "inv st' toks = inv st toks"
  using assms by (simp add: inv_def node_wf_def tok_ok_frame [of st' st])

lemma inv_snapshot: "snapshot st' = snapshot st \<Longrightarrow> inv st' toks = inv st toks"
  by (rule inv_frame) (simp_all add: snapshot_def)

lemma inv_fresh_node: "inv st toks \<Longrightarrow> next_addr st \<le> a \<Longrightarrow> nodes st a = None"
  by (cases "nodes st a") (auto dest: invD(3) simp: node_wf_def)

lemma inv_no_tokens:
  assumes "inv st toks" "nodes st a = None"
  shows "filter (tok_is_def a) toks = []" and "filter (tok_is_impl a) toks = []"
proof -
  have "\<not> tok_is_def a t \<and> \<not> tok_is_impl a t" if "t \<in> set toks" for t
    using invD(6) [OF assms(1) that] assms(2) by (cases t) auto
  then show "filter (tok_is_def a) toks = []" and "filter (tok_is_impl a) toks = []"
    by (simp_all add: filter_empty_conv)
qed

lemma inv_impl_node_bound:
  assumes "inv st toks" "kh \<in> set (impl_nodes toks)"
  shows "kh < next_addr st"
proof -
  from assms(2) obtain h n k where "ImplToken h n k kh \<in> set toks"
    by (auto simp: impl_nodes_mem)
  from invD(6) [OF assms(1) this] show ?thesis
    by (auto split: option.splits)
qed

lemma tok_ok_mono:
  assumes "tok_ok st t"
    and "\<And>a d. nodes st a = Some d \<Longrightarrow> \<exists>d'. nodes st' a = Some d' \<and> name (op d') = name (op d)
            \<and> set (kernels (op d)) \<subseteq> set (kernels (op d'))"
    and "next_addr st \<le> next_addr st'"
    and "\<And>k. backendFallbackKernels st k \<noteq> None \<Longrightarrow> backendFallbackKernels st' k \<noteq> None"
  shows "tok_ok st' t"
proof (cases t)
  case (DefToken h n)
  with assms(1) obtain d where "nodes st h = Some d" "name (op d) = n"
    by (auto split: option.splits)
  with assms(2) [of h d] DefToken show ?thesis by auto
next
  case (ImplToken h n k kh)
  with assms(1) obtain d ke where d: "nodes st h = Some d" "name (op d) = n" "kh < next_addr st"
    "ke \<in> set (kernels (op d))" "kernel_node ke = kh" "kernel_key ke = k"
    by (auto split: option.splits)
  from assms(2) [OF d(1)] obtain d' where "nodes st' h = Some d'" "name (op d') = name (op d)"
    "set (kernels (op d)) \<subseteq> set (kernels (op d'))" by blast
  with d assms(3) ImplToken show ?thesis by auto
next
  case (FallbackToken k)
  with assms(1,4) show ?thesis by auto
qed

lemma node_counts_cons_other:
  "node_counts toks a d \<Longrightarrow> \<not> tok_is_def a t \<Longrightarrow> \<not> tok_is_impl a t \<Longrightarrow> node_counts (t # toks) a d"
  unfolding node_counts_def by auto

lemma node_counts_remove_other:
  assumes "node_counts toks a d" "\<not> tok_is_def a t" "\<not> tok_is_impl a t"
  shows "node_counts (remove1 t toks) a d"
proof -
  have "ImplToken a n k kh \<in> set (remove1 t toks)" if "ImplToken a n k kh \<in> set toks" for n k kh
    using that assms(3) by (cases "t = ImplToken a n k kh") (auto simp: in_set_remove1)
  with assms show ?thesis
    unfolding node_counts_def by (auto simp: filter_remove1_other)
qed

lemma node_countsD:
  assumes "node_counts toks a d"
  shows "def_count d = length (filter (tok_is_def a) toks)"
    and "def_and_impl_count d = def_count d + length (filter (tok_is_impl a) toks)"
    and "0 < def_and_impl_count d"
    and "schema (op d) = None \<longleftrightarrow> def_count d = 0"
    and "schema (op d) = Some s \<Longrightarrow> operator_name s = name (op d)"
    and "ke \<in> set (kernels (op d)) \<Longrightarrow>
           ImplToken a (name (op d)) (kernel_key ke) (kernel_node ke) \<in> set toks"
  using assms unfolding node_counts_def by blast+

lemma node_countsI:
  assumes "def_count d = length (filter (tok_is_def a) toks)"
    and "def_and_impl_count d = def_count d + length (filter (tok_is_impl a) toks)"
    and "0 < def_and_impl_count d"
    and "schema (op d) = None \<longleftrightarrow> def_count d = 0"
    and "\<And>s. schema (op d) = Some s \<Longrightarrow> operator_name s = name (op d)"
    and "\<And>ke. ke \<in> set (kernels (op d)) \<Longrightarrow>
           ImplToken a (name (op d)) (kernel_key ke) (kernel_node ke) \<in> set toks"
  shows "node_counts toks a d"
  using assms unfolding node_counts_def by blast

lemma node_counts_add_def:
  assumes C: "node_counts toks a d" and nm: "name (op d) = operator_name s"
  shows "node_counts (DefToken a n # toks) a
           (d\<lparr>op := (if def_count d = 0 then (op d)\<lparr>schema := Some s\<rparr> else op d),
              def_count := def_count d + 1,
              def_and_impl_count := def_and_impl_count d + 1\<rparr>)"
    (is "node_counts ?toks a ?d")
proof (rule node_countsI)
  show "def_count ?d = length (filter (tok_is_def a) ?toks)"
    using node_countsD(1) [OF C] by simp
  show "def_and_impl_count ?d = def_count ?d + length (filter (tok_is_impl a) ?toks)"
    using node_countsD(2) [OF C] by simp
  show "0 < def_and_impl_count ?d" by simp
  show "schema (op ?d) = None \<longleftrightarrow> def_count ?d = 0"
    using node_countsD(4) [OF C] by (cases "def_count d = 0") auto
  show "operator_name s' = name (op ?d)" if "schema (op ?d) = Some s'" for s'
    using that node_countsD(5) [OF C, of s'] nm by (simp split: if_splits)
  show "ImplToken a (name (op ?d)) (kernel_key ke) (kernel_node ke) \<in> set ?toks"
    if "ke \<in> set (kernels (op ?d))" for ke
    using that node_countsD(6) [OF C, of ke] by (simp split: if_splits)
qed



lemma registerDef_fresh_inv:
  assumes I: "inv st toks" and L: "operatorLookupTable st (operator_name s) = None"
  shows "inv (snd (registerDef s st)) (DefToken (next_addr st) (operator_name s) # toks)"
proof -
  let ?a = "next_addr st" and ?n = "operator_name s"
  note E = registerDef_fresh [OF L]
  have fresh: "nodes st ?a = None" using inv_fresh_node [OF I] by simp
  note nt = inv_no_tokens [OF I fresh]
  show ?thesis
  proof (rule invI)
    show "distinct (operators (snd (registerDef s st)))"
      using invD(1) [OF I] invD(2) [OF I, of ?a] fresh by (auto simp: E)
    show "nodes (snd (registerDef s st)) a \<noteq> None" if "a \<in> set (operators (snd (registerDef s st)))" for a
      using that invD(2) [OF I] by (auto simp: E)
    show "node_wf (snd (registerDef s st)) a d" if "nodes (snd (registerDef s st)) a = Some d" for a d
    proof (cases "a = ?a")
      case True
      with that show ?thesis by (auto simp: E node_wf_def)
    next
      case False
      with that have "nodes st a = Some d" by (simp add: E)
      from invD(3) [OF I this] L show ?thesis
        by (auto simp: E node_wf_def)
    qed
    show "node_counts (DefToken ?a ?n # toks) a d" if "nodes (snd (registerDef s st)) a = Some d" for a d
    proof (cases "a = ?a")
      case True
      with that show ?thesis by (auto simp: E node_counts_def nt)
    next
      case False
      with that have "nodes st a = Some d" by (simp add: E)
      from invD(4) [OF I this] False show ?thesis
        by (intro node_counts_cons_other) auto
    qed
    show "\<exists>d. nodes (snd (registerDef s st)) a = Some d \<and> name (op d) = n"
      if "operatorLookupTable (snd (registerDef s st)) n = Some a" for n a
      using that invD(5) [OF I, of n a] fresh by (auto simp: E split: if_splits)
    show "tok_ok (snd (registerDef s st)) t" if "t \<in> set (DefToken ?a ?n # toks)" for t
    proof (cases "t = DefToken ?a ?n")
      case True
      then show ?thesis by (simp add: E)
    next
      case False
      with that have "tok_ok st t" using invD(6) [OF I] by auto
      then show ?thesis
        by (rule tok_ok_mono) (use fresh in \<open>auto simp: E\<close>)
    qed
    show "distinct (impl_nodes (DefToken ?a ?n # toks))" using invD(7) [OF I] by simp
    show "distinct (fallback_keys (DefToken ?a ?n # toks))" using invD(8) [OF I] by simp
    show "slot_isFallthrough (backendFallbackKernels (snd (registerDef s st))) k"
      if "k \<notin> backendsWithoutFallthrough (snd (registerDef s st))" for k
      using that invD(9) [OF I] by (simp add: E)
  qed
qed

lemma registerDef_existing_inv:
  assumes I: "inv st toks" and L: "operatorLookupTable st (operator_name s) = Some h"
    and N: "nodes st h = Some d"
    and C: "def_count d = 0 \<or> checkSchemaCompatibility d s = Inr ()"
  shows "inv (snd (registerDef s st)) (DefToken h (operator_name s) # toks)"
proof -
  let ?n = "operator_name s"
  let ?st = "snd (registerDef s st)"
  note E = registerDef_existing [OF L N C]
  from invD(5) [OF I L] N have nm: "name (op d) = ?n" by simp
  show ?thesis
  proof (rule invI)
    show "distinct (operators ?st)"
      using invD(1) [OF I] by (simp add: E)
    show "nodes ?st a \<noteq> None" if "a \<in> set (operators ?st)" for a
      using that invD(2) [OF I] by (auto simp: E)
    show "node_wf ?st a d'" if "nodes ?st a = Some d'" for a d'
    proof (cases "a = h")
      case True
      with that invD(3) [OF I N] show ?thesis by (auto simp: E node_wf_def)
    next
      case False
      with that have "nodes st a = Some d'" by (simp add: E)
      from invD(3) [OF I this] show ?thesis
        by (auto simp: E node_wf_def)
    qed
    show "node_counts (DefToken h ?n # toks) a d'" if "nodes ?st a = Some d'" for a d'
    proof (cases "a = h")
      case True
      with that have "d' = d\<lparr>op := (if def_count d = 0 then (op d)\<lparr>schema := Some s\<rparr> else op d),
              def_count := def_count d + 1,
              def_and_impl_count := def_and_impl_count d + 1\<rparr>" by (simp add: E)
      with True node_counts_add_def [OF invD(4) [OF I N] nm] show ?thesis by simp
    next
      case False
      with that have "nodes st a = Some d'" by (simp add: E)
      from invD(4) [OF I this] False show ?thesis
        by (intro node_counts_cons_other) auto
    qed
    show "\<exists>d. nodes ?st a = Some d \<and> name (op d) = n"
      if "operatorLookupTable ?st n = Some a" for n a
      using that invD(5) [OF I, of n a] N by (auto simp: E split: if_splits)
    show "tok_ok ?st t" if "t \<in> set (DefToken h ?n # toks)" for t
    proof (cases "t = DefToken h ?n")
      case True
      then show ?thesis using nm by (simp add: E)
    next
      case False
      with that have "tok_ok st t" using invD(6) [OF I] by auto
      then show ?thesis
        by (rule tok_ok_mono) (use N in \<open>auto simp: E\<close>)
    qed
    show "distinct (impl_nodes (DefToken h ?n # toks))" using invD(7) [OF I] by simp
    show "distinct (fallback_keys (DefToken h ?n # toks))" using invD(8) [OF I] by simp
    show "slot_isFallthrough (backendFallbackKernels ?st) k"
      if "k \<notin> backendsWithoutFallthrough ?st" for k
      using that invD(9) [OF I] by (simp add: E)
  qed
qed

lemma registerDef_inv:
  assumes I: "inv st toks" and R: "registerDef s st = (r, st')"
  shows "case r of Inl e \<Rightarrow> inv st' toks | Inr tok \<Rightarrow> inv st' (tok # toks)"
proof -
  from R have r: "r = fst (registerDef s st)" and st': "st' = snd (registerDef s st)"
    by simp_all
  show ?thesis
  proof (cases "fst (registerDef s st)")
    case (Inl e)
    then have "snapshot (snd (registerDef s st)) = snapshot st" by (rule registerDef_error)
    from I inv_snapshot [OF this, of toks] show ?thesis unfolding r st' Inl by simp
  next
    case (Inr tok)
    show ?thesis
    proof (cases "operatorLookupTable st (operator_name s)")
      case None
      from registerDef_fresh_inv [OF I None]
      show ?thesis unfolding r st' registerDef_fresh(1) [OF None] by simp
    next
      case (Some h)
      from invD(5) [OF I Some] obtain d where N: "nodes st h = Some d" by blast
      have C: "def_count d = 0 \<or> checkSchemaCompatibility d s = Inr ()"
        using Inr Some N by (rule registerDef_ok_existing)
      from registerDef_existing_inv [OF I Some N C]
      show ?thesis unfolding r st' registerDef_existing(1) [OF Some N C] by simp
    qed
  qed
qed

lemmas regimpl_defs = registerImpl_def findOrRegisterName_def findOperatorByName_def Let_def
  emit_def OperatorDef_new_def OperatorEntry_new_def registerKernel_def

lemma registerImpl_fresh:
  assumes "operatorLookupTable st n = None"
  shows "fst (registerImpl n k kf inferred dbg st) =
           Inr (ImplToken (next_addr st) n k (Suc (next_addr st)))"
    and "operators (snd (registerImpl n k kf inferred dbg st)) = operators st @ [next_addr st]"
    and "nodes (snd (registerImpl n k kf inferred dbg st)) = (nodes st)(next_addr st \<mapsto>
            \<lparr>op = \<lparr>name = n, schema = None,
                    kernels = [new_kernel (Suc (next_addr st)) k kf inferred dbg]\<rparr>,
             def_count = 0, def_and_impl_count = 1\<rparr>)"
    and "operatorLookupTable (snd (registerImpl n k kf inferred dbg st)) =
           (operatorLookupTable st)(n \<mapsto> next_addr st)"
    and "next_addr (snd (registerImpl n k kf inferred dbg st)) = Suc (Suc (next_addr st))"
    and "backendFallbackKernels (snd (registerImpl n k kf inferred dbg st)) =
           backendFallbackKernels st"
    and "backendsWithoutFallthrough (snd (registerImpl n k kf inferred dbg st)) =
           backendsWithoutFallthrough st"
    and "listeners (snd (registerImpl n k kf inferred dbg st)) = listeners st"
    and "trace (snd (registerImpl n k kf inferred dbg st)) =
           trace st @ [LockAcquired, LockReleased]"
  using assms by (simp_all add: regimpl_defs new_kernel_def)

lemma registerImpl_existing:
  assumes "operatorLookupTable st n = Some h" "nodes st h = Some d"
  shows "fst (registerImpl n k kf inferred dbg st) = Inr (ImplToken h n k (next_addr st))"
    and "operators (snd (registerImpl n k kf inferred dbg st)) = operators st"
    and "nodes (snd (registerImpl n k kf inferred dbg st)) = (nodes st)(h \<mapsto>
            d\<lparr>op := (op d)\<lparr>kernels := kernels (op d) @ [new_kernel (next_addr st) k kf inferred dbg]\<rparr>,
              def_and_impl_count := def_and_impl_count d + 1\<rparr>)"
    and "operatorLookupTable (snd (registerImpl n k kf inferred dbg st)) = operatorLookupTable st"
    and "next_addr (snd (registerImpl n k kf inferred dbg st)) = Suc (next_addr st)"
    and "backendFallbackKernels (snd (registerImpl n k kf inferred dbg st)) =
           backendFallbackKernels st"
    and "backendsWithoutFallthrough (snd (registerImpl n k kf inferred dbg st)) =
           backendsWithoutFallthrough st"
    and "listeners (snd (registerImpl n k kf inferred dbg st)) = listeners st"
    and "trace (snd (registerImpl n k kf inferred dbg st)) =
           trace st @ [LockAcquired, LockReleased]"
  using assms by (simp_all add: regimpl_defs new_kernel_def)

lemma registerImpl_dangling:
  assumes "operatorLookupTable st n = Some h" "nodes st h = None"
  shows "fst (registerImpl n k kf inferred dbg st) = Inl DanglingHandle"
    and "snapshot (snd (registerImpl n k kf inferred dbg st)) = snapshot st"
    and "trace (snd (registerImpl n k kf inferred dbg st)) =
           trace st @ [LockAcquired, LockReleased]"
  using assms by (simp_all add: regimpl_defs snapshot_def)

lemma node_counts_add_impl:
  assumes C: "node_counts toks a d"
  shows "node_counts (ImplToken a (name (op d)) k kh # toks) a
           (d\<lparr>op := (op d)\<lparr>kernels := kernels (op d) @ [new_kernel kh k kf inferred dbg]\<rparr>,
              def_and_impl_count := def_and_impl_count d + 1\<rparr>)"
    (is "node_counts ?toks a ?d")
proof (rule node_countsI)
  show "def_count ?d = length (filter (tok_is_def a) ?toks)"
    using node_countsD(1) [OF C] by simp
  show "def_and_impl_count ?d = def_count ?d + length (filter (tok_is_impl a) ?toks)"
    using node_countsD(2) [OF C] by simp
  show "0 < def_and_impl_count ?d" by simp
  show "schema (op ?d) = None \<longleftrightarrow> def_count ?d = 0"
    using node_countsD(4) [OF C] by simp
  show "operator_name s' = name (op ?d)" if "schema (op ?d) = Some s'" for s'
    using that node_countsD(5) [OF C, of s'] by simp
  show "ImplToken a (name (op ?d)) (kernel_key ke) (kernel_node ke) \<in> set ?toks"
    if "ke \<in> set (kernels (op ?d))" for ke
    using that node_countsD(6) [OF C, of ke] by (auto simp: new_kernel_def)
qed

lemma registerImpl_fresh_inv:
  assumes I: "inv st toks" and L: "operatorLookupTable st n = None"
  shows "inv (snd (registerImpl n k kf inferred dbg st))
           (ImplToken (next_addr st) n k (Suc (next_addr st)) # toks)"
proof -
  let ?a = "next_addr st"
  let ?st = "snd (registerImpl n k kf inferred dbg st)"
  let ?tok = "ImplToken ?a n k (Suc ?a)"
  note E = registerImpl_fresh [OF L, of k kf inferred dbg]
  have fresh: "nodes st ?a = None" using inv_fresh_node [OF I] by simp
  note nt = inv_no_tokens [OF I fresh]
  show ?thesis
  proof (rule invI)
    show "distinct (operators ?st)"
      using invD(1) [OF I] invD(2) [OF I, of ?a] fresh by (auto simp: E)
    show "nodes ?st a \<noteq> None" if "a \<in> set (operators ?st)" for a
      using that invD(2) [OF I] by (auto simp: E)
    show "node_wf ?st a d" if "nodes ?st a = Some d" for a d
    proof (cases "a = ?a")
      case True
      with that show ?thesis by (auto simp: E node_wf_def)
    next
      case False
      with that have "nodes st a = Some d" by (simp add: E)
      from invD(3) [OF I this] L show ?thesis
        by (auto simp: E node_wf_def)
    qed
    show "node_counts (?tok # toks) a d" if "nodes ?st a = Some d" for a d
    proof (cases "a = ?a")
      case True
      with that show ?thesis by (auto simp: E node_counts_def nt new_kernel_def)
    next
      case False
      with that have "nodes st a = Some d" by (simp add: E)
      from invD(4) [OF I this] False show ?thesis
        by (intro node_counts_cons_other) auto
    qed
    show "\<exists>d. nodes ?st a = Some d \<and> name (op d) = n'"
      if "operatorLookupTable ?st n' = Some a" for n' a
      using that invD(5) [OF I, of n' a] fresh by (auto simp: E split: if_splits)
    show "tok_ok ?st t" if "t \<in> set (?tok # toks)" for t
    proof (cases "t = ?tok")
      case True
      then show ?thesis by (simp add: E new_kernel_def)
    next
      case False
      with that have "tok_ok st t" using invD(6) [OF I] by auto
      then show ?thesis
        by (rule tok_ok_mono) (use fresh in \<open>auto simp: E\<close>)
    qed
    show "distinct (impl_nodes (?tok # toks))"
      using invD(7) [OF I] inv_impl_node_bound [OF I, of "Suc ?a"] by auto
    show "distinct (fallback_keys (?tok # toks))" using invD(8) [OF I] by simp
    show "slot_isFallthrough (backendFallbackKernels ?st) k'"
      if "k' \<notin> backendsWithoutFallthrough ?st" for k'
      using that invD(9) [OF I] by (simp add: E)
  qed
qed

lemma registerImpl_existing_inv:
  assumes I: "inv st toks" and L: "operatorLookupTable st n = Some h"
    and N: "nodes st h = Some d"
  shows "inv (snd (registerImpl n k kf inferred dbg st)) (ImplToken h n k (next_addr st) # toks)"
proof -
  let ?st = "snd (registerImpl n k kf inferred dbg st)"
  let ?tok = "ImplToken h n k (next_addr st)"
  note E = registerImpl_existing [OF L N, of k kf inferred dbg]
  from invD(5) [OF I L] N have nm: "name (op d) = n" by simp
  show ?thesis
  proof (rule invI)
    show "distinct (operators ?st)"
      using invD(1) [OF I] by (simp add: E)
    show "nodes ?st a \<noteq> None" if "a \<in> set (operators ?st)" for a
      using that invD(2) [OF I] by (auto simp: E)
    show "node_wf ?st a d'" if "nodes ?st a = Some d'" for a d'
    proof (cases "a = h")
      case True
      with that invD(3) [OF I N] show ?thesis by (auto simp: E node_wf_def)
    next
      case False
      with that have "nodes st a = Some d'" by (simp add: E)
      from invD(3) [OF I this] show ?thesis
        by (auto simp: E node_wf_def)
    qed
    show "node_counts (?tok # toks) a d'" if "nodes ?st a = Some d'" for a d'
    proof (cases "a = h")
      case True
      with that have "d' = d\<lparr>op := (op d)\<lparr>kernels := kernels (op d) @ [new_kernel (next_addr st) k kf inferred dbg]\<rparr>,
              def_and_impl_count := def_and_impl_count d + 1\<rparr>" by (simp add: E)
      with True node_counts_add_impl [OF invD(4) [OF I N], of k "next_addr st" kf inferred dbg] nm
      show ?thesis by simp
    next
      case False
      with that have "nodes st a = Some d'" by (simp add: E)
      from invD(4) [OF I this] False show ?thesis
        by (intro node_counts_cons_other) auto
    qed
    show "\<exists>d. nodes ?st a = Some d \<and> name (op d) = n'"
      if "operatorLookupTable ?st n' = Some a" for n' a
      using that invD(5) [OF I, of n' a] N by (auto simp: E split: if_splits)
    show "tok_ok ?st t" if "t \<in> set (?tok # toks)" for t
    proof (cases "t = ?tok")
      case True
      then show ?thesis using nm by (simp add: E new_kernel_def)
    next
      case False
      with that have "tok_ok st t" using invD(6) [OF I] by auto
      then show ?thesis
        by (rule tok_ok_mono) (use N in \<open>auto simp: E\<close>)
    qed
    show "distinct (impl_nodes (?tok # toks))"
      using invD(7) [OF I] inv_impl_node_bound [OF I, of "next_addr st"] by auto
    show "distinct (fallback_keys (?tok # toks))" using invD(8) [OF I] by simp
    show "slot_isFallthrough (backendFallbackKernels ?st) k'"
      if "k' \<notin> backendsWithoutFallthrough ?st" for k'
      using that invD(9) [OF I] by (simp add: E)
  qed
qed

lemma registerImpl_inv:
  assumes I: "inv st toks" and R: "registerImpl n k kf inferred dbg st = (r, st')"
  shows "case r of Inl e \<Rightarrow> inv st' toks | Inr tok \<Rightarrow> inv st' (tok # toks)"
proof -
  from R have r: "r = fst (registerImpl n k kf inferred dbg st)"
    and st': "st' = snd (registerImpl n k kf inferred dbg st)"
    by simp_all
  show ?thesis
  proof (cases "operatorLookupTable st n")
    case None
    from registerImpl_fresh_inv [OF I None]
    show ?thesis unfolding r st' registerImpl_fresh(1) [OF None] by simp
  next
    case (Some h)
    from invD(5) [OF I Some] obtain d where N: "nodes st h = Some d" by blast
    from registerImpl_existing_inv [OF I Some N]
    show ?thesis unfolding r st' registerImpl_existing(1) [OF Some N] by simp
  qed
qed

lemmas deregdef_defs = deregisterDef_def cleanup_def Let_def emit_def call_eqs
  deregisterSchema_def prepareForDeregistration_def

lemma deregisterDef_erase:
  assumes "nodes st h = Some d" "schema (op d) = Some s" "operator_name s = n"
    "def_count d = 1" "def_and_impl_count d = 1" "kernels (op d) = []"
  shows "fst (deregisterDef h n st) = Inr ()"
    and "operators (snd (deregisterDef h n st)) = removeAll h (operators st)"
    and "nodes (snd (deregisterDef h n st)) = (nodes st)(h := None)"
    and "operatorLookupTable (snd (deregisterDef h n st)) = (operatorLookupTable st)(n := None)"
    and "next_addr (snd (deregisterDef h n st)) = next_addr st"
    and "backendFallbackKernels (snd (deregisterDef h n st)) = backendFallbackKernels st"
    and "backendsWithoutFallthrough (snd (deregisterDef h n st)) = backendsWithoutFallthrough st"
    and "listeners (snd (deregisterDef h n st)) = listeners st"
  using assms by (simp_all add: deregdef_defs)

lemma deregisterDef_keep:
  assumes "nodes st h = Some d" "schema (op d) = Some s" "operator_name s = n"
    "0 < def_count d" "1 < def_and_impl_count d"
  shows "fst (deregisterDef h n st) = Inr ()"
    and "operators (snd (deregisterDef h n st)) = operators st"
    and "nodes (snd (deregisterDef h n st)) = (nodes st)(h \<mapsto>
           d\<lparr>op := (if def_count d = 1 then (op d)\<lparr>schema := None\<rparr> else op d),
             def_count := def_count d - 1,
             def_and_impl_count := def_and_impl_count d - 1\<rparr>)"
    and "operatorLookupTable (snd (deregisterDef h n st)) = operatorLookupTable st"
    and "next_addr (snd (deregisterDef h n st)) = next_addr st"
    and "backendFallbackKernels (snd (deregisterDef h n st)) = backendFallbackKernels st"
    and "backendsWithoutFallthrough (snd (deregisterDef h n st)) = backendsWithoutFallthrough st"
    and "listeners (snd (deregisterDef h n st)) = listeners st"
  using assms by (auto simp add: deregdef_defs)

lemmas deregimpl_defs = deregisterImpl_def deregisterKernel_def cleanup_def Let_def emit_def
  prepareForDeregistration_def

lemma deregisterImpl_erase:
  assumes "nodes st h = Some d" "ke \<in> set (kernels (op d))" "kernel_node ke = kh"
    "kernel_key ke = k" "name (op d) = n" "def_and_impl_count d = 1" "schema (op d) = None"
    "filter (\<lambda>ke. kernel_node ke \<noteq> kh) (kernels (op d)) = []"
  shows "fst (deregisterImpl h n k kh st) = Inr ()"
    and "operators (snd (deregisterImpl h n k kh st)) = removeAll h (operators st)"
    and "nodes (snd (deregisterImpl h n k kh st)) = (nodes st)(h := None)"
    and "operatorLookupTable (snd (deregisterImpl h n k kh st)) = (operatorLookupTable st)(n := None)"
    and "next_addr (snd (deregisterImpl h n k kh st)) = next_addr st"
    and "backendFallbackKernels (snd (deregisterImpl h n k kh st)) = backendFallbackKernels st"
    and "backendsWithoutFallthrough (snd (deregisterImpl h n k kh st)) = backendsWithoutFallthrough st"
    and "listeners (snd (deregisterImpl h n k kh st)) = listeners st"
    and "trace (snd (deregisterImpl h n k kh st)) = trace st @ [LockAcquired, LockReleased]"
  using assms by (auto simp add: deregimpl_defs)

lemma deregisterImpl_keep:
  assumes "nodes st h = Some d" "ke \<in> set (kernels (op d))" "kernel_node ke = kh"
    "kernel_key ke = k" "name (op d) = n" "1 < def_and_impl_count d"
  shows "fst (deregisterImpl h n k kh st) = Inr ()"
    and "operators (snd (deregisterImpl h n k kh st)) = operators st"
    and "nodes (snd (deregisterImpl h n k kh st)) = (nodes st)(h \<mapsto>
           d\<lparr>op := (op d)\<lparr>kernels := filter (\<lambda>ke. kernel_node ke \<noteq> kh) (kernels (op d))\<rparr>,
             def_and_impl_count := def_and_impl_count d - 1\<rparr>)"
    and "operatorLookupTable (snd (deregisterImpl h n k kh st)) = operatorLookupTable st"
    and "next_addr (snd (deregisterImpl h n k kh st)) = next_addr st"
    and "backendFallbackKernels (snd (deregisterImpl h n k kh st)) = backendFallbackKernels st"
    and "backendsWithoutFallthrough (snd (deregisterImpl h n k kh st)) = backendsWithoutFallthrough st"
    and "listeners (snd (deregisterImpl h n k kh st)) = listeners st"
    and "trace (snd (deregisterImpl h n k kh st)) = trace st @ [LockAcquired, LockReleased]"
  using assms by (auto simp add: deregimpl_defs)

lemma tok_ok_other:
  assumes "tok_ok st t" "\<not> tok_is_def h t" "\<not> tok_is_impl h t"
    and "\<And>a. a \<noteq> h \<Longrightarrow> nodes st' a = nodes st a"
    and "next_addr st \<le> next_addr st'"
    and "\<And>k. backendFallbackKernels st k \<noteq> None \<Longrightarrow> backendFallbackKernels st' k \<noteq> None"
  shows "tok_ok st' t"
  using assms by (cases t) (auto split: option.splits)

text \<open>Erasing a node whose last token goes away.\<close>

lemma erase_inv:
  assumes I: "inv st toks" and T: "tok \<in> set toks" and N: "nodes st h = Some d"
    and tk: "tok_is_def h tok \<or> tok_is_impl h tok"
    and one: "def_and_impl_count d = 1"
    and E: "operators st' = removeAll h (operators st)" "nodes st' = (nodes st)(h := None)"
      "operatorLookupTable st' = (operatorLookupTable st)(name (op d) := None)"
      "next_addr st' = next_addr st" "backendFallbackKernels st' = backendFallbackKernels st"
      "backendsWithoutFallthrough st' = backendsWithoutFallthrough st"
  shows "inv st' (remove1 tok toks)"
proof -
  note C = invD(4) [OF I N]
  have total: "length (filter (tok_is_def h) toks) + length (filter (tok_is_impl h) toks) = 1"
    using node_countsD(1,2) [OF C] one by simp
  have excl: "\<not> (tok_is_def h tok \<and> tok_is_impl h tok)" by (cases tok) auto
  define nd where "nd = length (filter (tok_is_def h) toks)"
  define ni where "ni = length (filter (tok_is_impl h) toks)"
  have rd: "length (filter (tok_is_def h) (remove1 tok toks)) = nd - (if tok_is_def h tok then 1 else 0)"
    and ri: "length (filter (tok_is_impl h) (remove1 tok toks)) = ni - (if tok_is_impl h tok then 1 else 0)"
    unfolding nd_def ni_def by (rule filter_remove1_length [OF T])+
  have pd: "tok_is_def h tok \<Longrightarrow> 0 < nd" and pi: "tok_is_impl h tok \<Longrightarrow> 0 < ni"
    unfolding nd_def ni_def using filter_mem_pos [OF T] by blast+
  have sum0: "length (filter (tok_is_def h) (remove1 tok toks))
            + length (filter (tok_is_impl h) (remove1 tok toks)) = 0"
    using total [folded nd_def ni_def] tk excl pd pi unfolding rd ri by auto
  have none_left: "\<not> tok_is_def h t \<and> \<not> tok_is_impl h t" if "t \<in> set (remove1 tok toks)" for t
    using sum0 that by (auto simp: filter_empty_conv)
  have other: "\<not> tok_is_def a tok \<and> \<not> tok_is_impl a tok" if "a \<noteq> h" for a
    using tk that by (cases tok) auto
  show ?thesis
  proof (rule invI)
    show "distinct (operators st')" using invD(1) [OF I] by (simp add: E distinct_removeAll)
    show "nodes st' a \<noteq> None" if "a \<in> set (operators st')" for a
      using that invD(2) [OF I, of a] by (auto simp: E)
    show "node_wf st' a d'" if "nodes st' a = Some d'" for a d'
    proof -
      from that have ah: "a \<noteq> h" and old: "nodes st a = Some d'"
        by (auto simp: E split: if_splits)
      from invD(3) [OF I old] invD(3) [OF I N] ah show ?thesis
        by (auto simp: node_wf_def E)
    qed
    show "node_counts (remove1 tok toks) a d'" if "nodes st' a = Some d'" for a d'
    proof -
      from that have ah: "a \<noteq> h" and old: "nodes st a = Some d'"
        by (auto simp: E split: if_splits)
      from invD(4) [OF I old] other [OF ah] show ?thesis
        by (intro node_counts_remove_other) auto
    qed
    show "\<exists>d. nodes st' a = Some d \<and> name (op d) = n"
      if "operatorLookupTable st' n = Some a" for n a
    proof -
      from that have nn: "n \<noteq> name (op d)" and old: "operatorLookupTable st n = Some a"
        by (auto simp: E split: if_splits)
      from invD(5) [OF I old] obtain d' where d': "nodes st a = Some d'" "name (op d') = n"
        by blast
      with nn N have "a \<noteq> h" by auto
      with d' show ?thesis by (auto simp: E)
    qed
    show "tok_ok st' t" if "t \<in> set (remove1 tok toks)" for t
    proof -
      from that have "t \<in> set toks" using set_remove1_subset [of tok toks] by blast
      then have "tok_ok st t" by (rule invD(6) [OF I])
      then show ?thesis
        by (rule tok_ok_other [where h = h]) (use none_left [OF that] in \<open>auto simp: E\<close>)
    qed
    show "distinct (impl_nodes (remove1 tok toks))"
      using impl_nodes_remove1 [OF invD(7) [OF I]] by blast
    show "distinct (fallback_keys (remove1 tok toks))"
      using fallback_keys_remove1 [OF invD(8) [OF I]] by blast
    show "slot_isFallthrough (backendFallbackKernels st') k"
      if "k \<notin> backendsWithoutFallthrough st'" for k
      using that invD(9) [OF I] by (simp add: E)
  qed
qed

lemma node_counts_remove_def:
  assumes C: "node_counts toks a d" and T: "DefToken a n \<in> set toks"
    and big: "1 < def_and_impl_count d"
  shows "node_counts (remove1 (DefToken a n) toks) a
           (d\<lparr>op := (if def_count d = 1 then (op d)\<lparr>schema := None\<rparr> else op d),
              def_count := def_count d - 1,
              def_and_impl_count := def_and_impl_count d - 1\<rparr>)"
    (is "node_counts ?toks a ?d")
proof (rule node_countsI)
  have pos: "0 < def_count d"
    using node_countsD(1) [OF C] filter_mem_pos [OF T, of "tok_is_def a"] by simp
  show "def_count ?d = length (filter (tok_is_def a) ?toks)"
    using node_countsD(1) [OF C] by (simp add: filter_remove1_length [OF T])
  show "def_and_impl_count ?d = def_count ?d + length (filter (tok_is_impl a) ?toks)"
    using node_countsD(2) [OF C] pos by (simp add: filter_remove1_other)
  show "0 < def_and_impl_count ?d" using big by simp
  show "schema (op ?d) = None \<longleftrightarrow> def_count ?d = 0"
    using node_countsD(4) [OF C] pos by (cases "def_count d = 1") auto
  show "operator_name s' = name (op ?d)" if "schema (op ?d) = Some s'" for s'
    using that node_countsD(5) [OF C, of s'] by (simp split: if_splits)
  show "ImplToken a (name (op ?d)) (kernel_key ke) (kernel_node ke) \<in> set ?toks"
    if "ke \<in> set (kernels (op ?d))" for ke
    using that node_countsD(6) [OF C, of ke] by (simp split: if_splits)
qed

lemma node_counts_remove_impl:
  assumes C: "node_counts toks a d" and T: "ImplToken a n k kh \<in> set toks"
    and big: "1 < def_and_impl_count d" and D: "distinct (impl_nodes toks)"
  shows "node_counts (remove1 (ImplToken a n k kh) toks) a
           (d\<lparr>op := (op d)\<lparr>kernels := filter (\<lambda>ke. kernel_node ke \<noteq> kh) (kernels (op d))\<rparr>,
              def_and_impl_count := def_and_impl_count d - 1\<rparr>)"
    (is "node_counts ?toks a ?d")
proof (rule node_countsI)
  have pos: "0 < length (filter (tok_is_impl a) toks)"
    using filter_mem_pos [OF T, of "tok_is_impl a"] by simp
  show "def_count ?d = length (filter (tok_is_def a) ?toks)"
    using node_countsD(1) [OF C] by (simp add: filter_remove1_other)
  have L: "length (filter (tok_is_impl a) ?toks) = length (filter (tok_is_impl a) toks) - 1"
    by (simp add: filter_remove1_length [OF T])
  have eq: "def_and_impl_count ?d = def_and_impl_count d - 1" "def_count ?d = def_count d"
    by simp_all
  show "def_and_impl_count ?d = def_count ?d + length (filter (tok_is_impl a) ?toks)"
    unfolding eq L using node_countsD(2) [OF C] pos by linarith
  show "0 < def_and_impl_count ?d" using big by simp
  show "schema (op ?d) = None \<longleftrightarrow> def_count ?d = 0"
    using node_countsD(4) [OF C] by simp
  show "operator_name s' = name (op ?d)" if "schema (op ?d) = Some s'" for s'
    using that node_countsD(5) [OF C, of s'] by simp
  show "ImplToken a (name (op ?d)) (kernel_key ke) (kernel_node ke) \<in> set ?toks"
    if "ke \<in> set (kernels (op ?d))" for ke
  proof -
    from that have ke: "ke \<in> set (kernels (op d))" "kernel_node ke \<noteq> kh" by auto
    from node_countsD(6) [OF C ke(1)] ke(2) show ?thesis
      by (simp add: in_set_remove1)
  qed
qed

lemma release_def_ok:
  assumes I: "inv st toks" and T: "DefToken h n \<in> set toks"
  shows "fst (deregisterDef h n st) = Inr ()"
    and "inv (snd (deregisterDef h n st)) (remove1 (DefToken h n) toks)"
proof -
  let ?tok = "DefToken h n"
  let ?st = "snd (deregisterDef h n st)"
  from invD(6) [OF I T] obtain d where N: "nodes st h = Some d" and nm: "name (op d) = n"
    by (auto split: option.splits)
  note C = invD(4) [OF I N]
  have dpos: "0 < def_count d"
    using node_countsD(1) [OF C] filter_mem_pos [OF T, of "tok_is_def h"] by simp
  with node_countsD(4) [OF C] obtain s where S: "schema (op d) = Some s" by auto
  from node_countsD(5) [OF C S] nm have sn: "operator_name s = n" by simp
  have both: "fst (deregisterDef h n st) = Inr () \<and> inv ?st (remove1 ?tok toks)"
  proof (cases "def_and_impl_count d = 1")
    case True
    with node_countsD(2) [OF C] dpos have d1: "def_count d = 1"
      and ni: "length (filter (tok_is_impl h) toks) = 0" by linarith+
    have nok: "kernels (op d) = []"
    proof (cases "kernels (op d)")
      case (Cons ke kes)
      then have "ImplToken h (name (op d)) (kernel_key ke) (kernel_node ke) \<in> set toks"
        using node_countsD(6) [OF C, of ke] by simp
      from filter_mem_pos [OF this, of "tok_is_impl h"] ni show ?thesis by simp
    qed simp
    note E = deregisterDef_erase [OF N S sn d1 True nok]
    have "inv ?st (remove1 ?tok toks)"
      by (rule erase_inv [OF I T N _ True]) (simp_all add: E nm)
    with E(1) show ?thesis by simp
  next
    case False
    with node_countsD(3) [OF C] have big: "1 < def_and_impl_count d" by simp
    note E = deregisterDef_keep [OF N S sn dpos big]
    have "inv ?st (remove1 ?tok toks)"
    proof (rule invI)
      show "distinct (operators ?st)"
        using invD(1) [OF I] by (simp add: E)
      show "nodes ?st a \<noteq> None" if "a \<in> set (operators ?st)" for a
        using that invD(2) [OF I] by (auto simp: E)
      show "node_wf ?st a d'" if "nodes ?st a = Some d'" for a d'
      proof (cases "a = h")
        case True
        with that invD(3) [OF I N] show ?thesis by (auto simp: E node_wf_def)
      next
        case False
        with that have "nodes st a = Some d'" by (simp add: E)
        from invD(3) [OF I this] show ?thesis
          by (auto simp: E node_wf_def)
      qed
      show "node_counts (remove1 ?tok toks) a d'" if "nodes ?st a = Some d'" for a d'
      proof (cases "a = h")
        case True
        with that have "d' = d\<lparr>op := (if def_count d = 1 then (op d)\<lparr>schema := None\<rparr> else op d),
             def_count := def_count d - 1,
             def_and_impl_count := def_and_impl_count d - 1\<rparr>" by (simp add: E)
        with True node_counts_remove_def [OF C T big] show ?thesis by simp
      next
        case False
        with that have "nodes st a = Some d'" by (simp add: E)
        from invD(4) [OF I this] False show ?thesis
          by (intro node_counts_remove_other) auto
      qed
      show "\<exists>d. nodes ?st a = Some d \<and> name (op d) = n'"
        if "operatorLookupTable ?st n' = Some a" for n' a
        using that invD(5) [OF I, of n' a] N by (auto simp: E split: if_splits)
      show "tok_ok ?st t" if "t \<in> set (remove1 ?tok toks)" for t
      proof -
        from that have "t \<in> set toks" using set_remove1_subset [of ?tok toks] by blast
        then have "tok_ok st t" by (rule invD(6) [OF I])
        then show ?thesis
          by (rule tok_ok_mono) (use N in \<open>auto simp: E\<close>)
      qed
      show "distinct (impl_nodes (remove1 ?tok toks))"
        using impl_nodes_remove1 [OF invD(7) [OF I]] by blast
      show "distinct (fallback_keys (remove1 ?tok toks))"
        using fallback_keys_remove1 [OF invD(8) [OF I]] by blast
      show "slot_isFallthrough (backendFallbackKernels ?st) k"
        if "k \<notin> backendsWithoutFallthrough ?st" for k
        using that invD(9) [OF I] by (simp add: E)
    qed
    with E(1) show ?thesis by simp
  qed
  then show "fst (deregisterDef h n st) = Inr ()"
    and "inv ?st (remove1 ?tok toks)" by simp_all
qed

lemma release_impl_ok:
  assumes I: "inv st toks" and T: "ImplToken h n k kh \<in> set toks"
  shows "fst (deregisterImpl h n k kh st) = Inr ()"
    and "inv (snd (deregisterImpl h n k kh st)) (remove1 (ImplToken h n k kh) toks)"
proof -
  let ?tok = "ImplToken h n k kh"
  let ?st = "snd (deregisterImpl h n k kh st)"
  from invD(6) [OF I T] obtain d ke where N: "nodes st h = Some d" and nm: "name (op d) = n"
    and ke: "ke \<in> set (kernels (op d))" "kernel_node ke = kh" "kernel_key ke = k"
    by (auto split: option.splits)
  note C = invD(4) [OF I N]
  note D = invD(7) [OF I]
  have ipos: "0 < length (filter (tok_is_impl h) toks)"
    using filter_mem_pos [OF T, of "tok_is_impl h"] by simp
  have both: "fst (deregisterImpl h n k kh st) = Inr () \<and> inv ?st (remove1 ?tok toks)"
  proof (cases "def_and_impl_count d = 1")
    case True
    with node_countsD(2) [OF C] ipos have d0: "def_count d = 0"
      and ni: "length (filter (tok_is_impl h) toks) = 1" by linarith+
    from d0 node_countsD(4) [OF C] have S: "schema (op d) = None" by simp
    have rest: "filter (\<lambda>ke. kernel_node ke \<noteq> kh) (kernels (op d)) = []"
    proof (cases "filter (\<lambda>ke. kernel_node ke \<noteq> kh) (kernels (op d))")
      case (Cons ke' kes)
      then have "ke' \<in> set (filter (\<lambda>ke. kernel_node ke \<noteq> kh) (kernels (op d)))" by simp
      then have ke': "ke' \<in> set (kernels (op d))" "kernel_node ke' \<noteq> kh" by auto
      let ?t' = "ImplToken h (name (op d)) (kernel_key ke') (kernel_node ke')"
      from node_countsD(6) [OF C ke'(1)] ke'(2) have "?t' \<in> set (remove1 ?tok toks)"
        by (simp add: in_set_remove1)
      from filter_mem_pos [OF this, of "tok_is_impl h"]
      have "0 < length (filter (tok_is_impl h) (remove1 ?tok toks))" by simp
      with ni show ?thesis by (simp add: filter_remove1_length [OF T])
    qed simp
    note E = deregisterImpl_erase [OF N ke nm True S rest]
    have "inv ?st (remove1 ?tok toks)"
      by (rule erase_inv [OF I T N _ True]) (simp_all add: E nm)
    with E(1) show ?thesis by simp
  next
    case False
    with node_countsD(3) [OF C] have big: "1 < def_and_impl_count d" by simp
    note E = deregisterImpl_keep [OF N ke nm big]
    have "inv ?st (remove1 ?tok toks)"
    proof (rule invI)
      show "distinct (operators ?st)"
        using invD(1) [OF I] by (simp add: E)
      show "nodes ?st a \<noteq> None" if "a \<in> set (operators ?st)" for a
        using that invD(2) [OF I] by (auto simp: E)
      show "node_wf ?st a d'" if "nodes ?st a = Some d'" for a d'
      proof (cases "a = h")
        case True
        with that invD(3) [OF I N] show ?thesis by (auto simp: E node_wf_def)
      next
        case False
        with that have "nodes st a = Some d'" by (simp add: E)
        from invD(3) [OF I this] show ?thesis
          by (auto simp: E node_wf_def)
      qed
      show "node_counts (remove1 ?tok toks) a d'" if "nodes ?st a = Some d'" for a d'
      proof (cases "a = h")
        case True
        with that have "d' = d\<lparr>op := (op d)\<lparr>kernels := filter (\<lambda>ke. kernel_node ke \<noteq> kh) (kernels (op d))\<rparr>,
             def_and_impl_count := def_and_impl_count d - 1\<rparr>" by (simp add: E)
        with True node_counts_remove_impl [OF C T big D] show ?thesis by simp
      next
        case False
        with that have "nodes st a = Some d'" by (simp add: E)
        from invD(4) [OF I this] False show ?thesis
          by (intro node_counts_remove_other) auto
      qed
      show "\<exists>d. nodes ?st a = Some d \<and> name (op d) = n'"
        if "operatorLookupTable ?st n' = Some a" for n' a
        using that invD(5) [OF I, of n' a] N by (auto simp: E split: if_splits)
      show "tok_ok ?st t" if "t \<in> set (remove1 ?tok toks)" for t
      proof -
        from that have mem: "t \<in> set toks" using set_remove1_subset [of ?tok toks] by blast
        then have ok: "tok_ok st t" by (rule invD(6) [OF I])
        show ?thesis
        proof (cases t)
          case (DefToken h' n')
          with ok N show ?thesis by (auto simp: E split: option.splits)
        next
          case (ImplToken h' n' k' kh')
          with that have "kh' \<noteq> kh" using impl_token_unique [OF D T] by blast
          with ok ImplToken N show ?thesis by (auto simp: E split: option.splits)
        next
          case (FallbackToken k')
          with ok show ?thesis by (simp add: E)
        qed
      qed
      show "distinct (impl_nodes (remove1 ?tok toks))"
        using impl_nodes_remove1 [OF D] by blast
      show "distinct (fallback_keys (remove1 ?tok toks))"
        using fallback_keys_remove1 [OF invD(8) [OF I]] by blast
      show "slot_isFallthrough (backendFallbackKernels ?st) k'"
        if "k' \<notin> backendsWithoutFallthrough ?st" for k'
        using that invD(9) [OF I] by (simp add: E)
    qed
    with E(1) show ?thesis by simp
  qed
  then show "fst (deregisterImpl h n k kh st) = Inr ()"
    and "inv ?st (remove1 ?tok toks)" by simp_all
qed

lemmas fallback_defs = registerFallback_def deregisterFallback_def setKernel_def
  removeKernelIfExists_def Let_def slot_isFallthrough_def

lemma registerFallback_error:
  "fst (registerFallback k kf st) = Inl e \<Longrightarrow> snd (registerFallback k kf st) = st"
  by (auto simp: fallback_defs split: option.splits if_splits)

lemma registerFallback_inv:
  assumes I: "inv st toks" and R: "registerFallback k kf st = (r, st')"
  shows "case r of Inl e \<Rightarrow> inv st' toks | Inr tok \<Rightarrow> inv st' (tok # toks)"
proof (cases "backendFallbackKernels st k")
  case (Some kf')
  with R have "r = Inl DuplicateFallback" "st' = st"
    by (auto simp: fallback_defs)
  with I show ?thesis by simp
next
  case None
  with R have r: "r = Inr (FallbackToken k)"
    and E: "operators st' = operators st" "nodes st' = nodes st"
      "operatorLookupTable st' = operatorLookupTable st" "next_addr st' = next_addr st"
      "backendFallbackKernels st' = (backendFallbackKernels st)(k \<mapsto> kf)"
      "backendsWithoutFallthrough st' =
         (if isFallthrough kf then backendsWithoutFallthrough st - {k}
          else backendsWithoutFallthrough st)"
    by (auto simp: fallback_defs)
  have notin: "FallbackToken k \<notin> set toks"
    using invD(6) [OF I, of "FallbackToken k"] None by auto
  have "inv st' (FallbackToken k # toks)"
  proof (rule invI)
    show "distinct (operators st')" using invD(1) [OF I] by (simp add: E)
    show "nodes st' a \<noteq> None" if "a \<in> set (operators st')" for a
      using that invD(2) [OF I] by (auto simp: E)
    show "node_wf st' a d" if "nodes st' a = Some d" for a d
      using that invD(3) [OF I, of a d] by (simp add: E node_wf_def)
    show "node_counts (FallbackToken k # toks) a d" if "nodes st' a = Some d" for a d
      using that invD(4) [OF I, of a d] by (intro node_counts_cons_other) (auto simp: E)
    show "\<exists>d. nodes st' a = Some d \<and> name (op d) = n"
      if "operatorLookupTable st' n = Some a" for n a
      using that invD(5) [OF I, of n a] by (simp add: E)
    show "tok_ok st' t" if "t \<in> set (FallbackToken k # toks)" for t
    proof (cases "t = FallbackToken k")
      case True
      then show ?thesis by (simp add: E)
    next
      case False
      with that have "tok_ok st t" using invD(6) [OF I] by auto
      then show ?thesis
        by (rule tok_ok_mono) (auto simp: E)
    qed
    show "distinct (impl_nodes (FallbackToken k # toks))" using invD(7) [OF I] by simp
    show "distinct (fallback_keys (FallbackToken k # toks))"
      using invD(8) [OF I] notin by (simp add: fallback_keys_mem)
    show "slot_isFallthrough (backendFallbackKernels st') k'"
      if "k' \<notin> backendsWithoutFallthrough st'" for k'
      using that invD(9) [OF I, of k'] None
      by (auto simp: E slot_isFallthrough_def split: if_splits)
  qed
  with r show ?thesis by simp
qed

lemma release_fallback_ok:
  assumes I: "inv st toks" and T: "FallbackToken k \<in> set toks"
  shows "fst (deregisterFallback k st) = Inr ()"
    and "inv (snd (deregisterFallback k st)) (remove1 (FallbackToken k) toks)"
proof -
  let ?tok = "FallbackToken k"
  let ?st = "snd (deregisterFallback k st)"
  from invD(6) [OF I T] obtain kf where S: "backendFallbackKernels st k = Some kf" by auto
  then have r: "fst (deregisterFallback k st) = Inr ()"
    and E: "operators ?st = operators st" "nodes ?st = nodes st"
      "operatorLookupTable ?st = operatorLookupTable st" "next_addr ?st = next_addr st"
      "backendFallbackKernels ?st = (backendFallbackKernels st)(k := None)"
      "backendsWithoutFallthrough ?st = insert k (backendsWithoutFallthrough st)"
    by (auto simp: fallback_defs)
  have "inv ?st (remove1 ?tok toks)"
  proof (rule invI)
    show "distinct (operators ?st)" using invD(1) [OF I] by (simp add: E)
    show "nodes ?st a \<noteq> None" if "a \<in> set (operators ?st)" for a
      using that invD(2) [OF I] by (auto simp: E)
    show "node_wf ?st a d" if "nodes ?st a = Some d" for a d
      using that invD(3) [OF I, of a d] by (simp add: E node_wf_def)
    show "node_counts (remove1 ?tok toks) a d" if "nodes ?st a = Some d" for a d
      using that invD(4) [OF I, of a d] by (intro node_counts_remove_other) (auto simp: E)
    show "\<exists>d. nodes ?st a = Some d \<and> name (op d) = n"
      if "operatorLookupTable ?st n = Some a" for n a
      using that invD(5) [OF I, of n a] by (simp add: E)
    show "tok_ok ?st t" if "t \<in> set (remove1 ?tok toks)" for t
    proof -
      from that have mem: "t \<in> set toks" using set_remove1_subset [of ?tok toks] by blast
      then have ok: "tok_ok st t" by (rule invD(6) [OF I])
      show ?thesis
      proof (cases t)
        case (FallbackToken k')
        with that have "k' \<noteq> k" using fallback_token_unique [OF invD(8) [OF I] T] by blast
        with ok FallbackToken show ?thesis by (simp add: E)
      qed (use ok in \<open>auto simp: E split: option.splits\<close>)
    qed
    show "distinct (impl_nodes (remove1 ?tok toks))"
      using impl_nodes_remove1 [OF invD(7) [OF I]] by blast
    show "distinct (fallback_keys (remove1 ?tok toks))"
      using fallback_keys_remove1 [OF invD(8) [OF I]] by blast
    show "slot_isFallthrough (backendFallbackKernels ?st) k'"
      if "k' \<notin> backendsWithoutFallthrough ?st" for k'
      using that invD(9) [OF I, of k'] by (auto simp: E slot_isFallthrough_def)
  qed
  with r show "fst (deregisterFallback k st) = Inr ()"
    and "inv ?st (remove1 ?tok toks)" by simp_all
qed

lemma replay_registered_eq:
  "replay_registered l as st =
     st\<lparr>trace := trace st @ map (\<lambda>a. OnOperatorRegistered l a (snapshot st))
        (filter (\<lambda>a. case nodes st a of None \<Rightarrow> False | Some d \<Rightarrow> 0 < def_count d) as)\<rparr>"
  by (induction as arbitrary: st) (auto simp: emit_def snapshot_def split: option.splits)

lemma addRegistrationListener_inv:
  "inv (addRegistrationListener l st) toks = inv st toks"
  by (rule inv_frame) (simp_all add: addRegistrationListener_def replay_registered_eq emit_def Let_def)

lemma release_ok:
  assumes I: "inv st toks" and T: "tok \<in> set toks"
  shows "fst (release tok st) = Inr ()" and "inv (snd (release tok st)) (remove1 tok toks)"
  using release_def_ok [OF I] release_impl_ok [OF I] release_fallback_ok [OF I] T
  by (cases tok; simp)+

lemma reachable_inv: "reachable st toks \<Longrightarrow> inv st toks"
proof (induction rule: reachable.induct)
  case init
  show ?case by (rule inv_init)
next
  case (def_ok st toks s tok st')
  from registerDef_inv [OF def_ok.IH def_ok.hyps(2)] show ?case by simp
next
  case (def_rejected st toks s e st')
  from registerDef_inv [OF def_rejected.IH def_rejected.hyps(2)] show ?case by simp
next
  case (impl_ok st toks n k kf inferred dbg tok st')
  from registerImpl_inv [OF impl_ok.IH impl_ok.hyps(2)] show ?case by simp
next
  case (impl_rejected st toks n k kf inferred dbg e st')
  from registerImpl_inv [OF impl_rejected.IH impl_rejected.hyps(2)] show ?case by simp
next
  case (fallback_ok st toks k kf tok st')
  from registerFallback_inv [OF fallback_ok.IH fallback_ok.hyps(2)] show ?case by simp
next
  case (fallback_rejected st toks k kf e st')
  from registerFallback_inv [OF fallback_rejected.IH fallback_rejected.hyps(2)] show ?case by simp
next
  case (released st toks tok r st')
  from release_ok(2) [OF released.IH released.hyps(2)] released.hyps(3) show ?case by simp
next
  case (listener_added st toks l)
  then show ?case by (simp add: addRegistrationListener_inv)
qed

section \<open>Sample states\<close>

lemma ex_lookup_init: "operatorLookupTable Dispatcher_init (operator_name ex_default) = None"
  by (simp add: Dispatcher_init_def)

lemma ex_defined_result:
  "registerDef ex_default Dispatcher_init = (Inr (DefToken 0 ex_add), ex_defined)"
  using registerDef_fresh(1) [OF ex_lookup_init]
  by (simp add: ex_defined_def prod_eq_iff Dispatcher_init_def ex_default_def)

lemma ex_defined_fields:
  "operators ex_defined = [0]"
  "nodes ex_defined = [0 \<mapsto> ex_add_node]"
  "operatorLookupTable ex_defined = [ex_add \<mapsto> 0]"
  "next_addr ex_defined = Suc 0"
  "backendFallbackKernels ex_defined = Map.empty"
  "backendsWithoutFallthrough ex_defined = UNIV"
  "listeners ex_defined = []"
  unfolding ex_defined_def registerDef_fresh [OF ex_lookup_init]
  by (simp_all add: Dispatcher_init_def ex_default_def ex_add_node_def)

lemma ex_defined_reachable: "reachable ex_defined [DefToken 0 ex_add]"
  by (rule reachable.def_ok [OF reachable.init ex_defined_result])

section \<open>Schema compatibility of a second definition\<close>

text \<open>
  Claim C1, as amended.  When an operator already has a live definition and a second
  \<open>registerDef\<close> brings a structurally equal schema, the registration is accepted if the
  new schema has the default alias analysis kind; if the new schema gives a kind, it is
  accepted exactly when \<open>aliasAnalysis\<close> of the existing schema and of the new schema are
  equal, whether or not the existing schema has the default kind, and is rejected with an
  alias analysis conflict otherwise.  In every case the entry keeps the schema it had: a
  kind given later is not adopted.
\<close>

theorem registerDef_alias_analysis_rule:
  assumes "operatorLookupTable st (operator_name new_schema) = Some h" "nodes st h = Some d"
    "0 < def_count d" "schema (op d) = Some op_schema" "schema_eq op_schema new_schema"
  shows "(fst (registerDef new_schema st) = Inr (DefToken h (operator_name new_schema))
            \<longleftrightarrow> isDefaultAliasAnalysisKind new_schema
                \<or> aliasAnalysis op_schema = aliasAnalysis new_schema)
     \<and> (fst (registerDef new_schema st) = Inl AliasAnalysisConflict
            \<longleftrightarrow> \<not> isDefaultAliasAnalysisKind new_schema
                \<and> aliasAnalysis op_schema \<noteq> aliasAnalysis new_schema)
     \<and> (\<exists>d'. nodes (snd (registerDef new_schema st)) h = Some d'
            \<and> schema (op d') = Some op_schema)"
  using assms
  by (auto simp: regdef_defs checkSchemaCompatibility_def)

theorem registerDef_alias_analysis_rule_witness:
  "operatorLookupTable ex_defined (operator_name ex_conservative) = Some 0
   \<and> nodes ex_defined 0 = Some ex_add_node
   \<and> 0 < def_count ex_add_node
   \<and> schema (op ex_add_node) = Some ex_default
   \<and> schema_eq ex_default ex_conservative
   \<and> fst (registerDef ex_conservative ex_defined) = Inr (DefToken 0 ex_add)
   \<and> fst (registerDef ex_conservative ex_defined) \<noteq> Inl AliasAnalysisConflict"
proof -
  have h: "operatorLookupTable ex_defined (operator_name ex_conservative) = Some 0"
    "nodes ex_defined 0 = Some ex_add_node" "0 < def_count ex_add_node"
    "schema (op ex_add_node) = Some ex_default" "schema_eq ex_default ex_conservative"
    by (simp_all add: ex_defined_fields ex_conservative_def ex_add_node_def schema_eq_def
        ex_default_def)
  from registerDef_alias_analysis_rule [OF h] h show ?thesis
    by (simp add: ex_conservative_def ex_default_def)
qed

text \<open>
  The claim as written fails: the existing schema has the default kind, the new schema is
  structurally equal and names the kind \<open>FROM_SCHEMA\<close>, and the registration is rejected.
\<close>

theorem registerDef_concrete_kind_after_default_counterexample:
  "isDefaultAliasAnalysisKind ex_default
   \<and> \<not> isDefaultAliasAnalysisKind ex_from_schema
   \<and> schema_eq ex_default ex_from_schema
   \<and> fst (registerDef ex_default Dispatcher_init) = Inr (DefToken 0 ex_add)
   \<and> fst (registerDef ex_from_schema (snd (registerDef ex_default Dispatcher_init)))
        = Inl AliasAnalysisConflict"
  by (simp add: regdef_defs checkSchemaCompatibility_def schema_eq_def Dispatcher_init_def
      ex_default_def ex_from_schema_def ex_add_def)

section \<open>Rejected registrations\<close>

text \<open>
  Claim C2.  A registration that is rejected with an error (a schema or alias analysis
  conflict, or any other failure, in \<open>registerDef\<close>; a duplicate fallback in
  \<open>registerFallback\<close>) leaves the tables of the registry as they were: the list of
  operators, every entry with its schema and both counts, the name index, the fallback
  table and the set of backends without fallthrough.
\<close>

theorem rejected_registration_keeps_registry:
  "(fst (registerDef s st) = Inl e \<longrightarrow> snapshot (snd (registerDef s st)) = snapshot st)
   \<and> (fst (registerFallback k kf st) = Inl e' \<longrightarrow>
        snapshot (snd (registerFallback k kf st)) = snapshot st)"
  using registerDef_error [of s st e] registerFallback_error [of k kf st e'] by auto

lemma ex_with_fallback_fields:
  "operatorLookupTable ex_with_fallback = [ex_add \<mapsto> 0]"
  "nodes ex_with_fallback = [0 \<mapsto> ex_add_node]"
  "backendFallbackKernels ex_with_fallback = [1 \<mapsto> ex_fallthrough]"
  by (simp_all add: ex_with_fallback_def fallback_defs ex_defined_fields)

theorem rejected_registration_keeps_registry_witness:
  "fst (registerDef ex_from_schema ex_with_fallback) = Inl AliasAnalysisConflict
   \<and> snapshot (snd (registerDef ex_from_schema ex_with_fallback)) = snapshot ex_with_fallback
   \<and> fst (registerFallback 1 ex_cpu_kernel ex_with_fallback) = Inl DuplicateFallback
   \<and> snapshot (snd (registerFallback 1 ex_cpu_kernel ex_with_fallback))
        = snapshot ex_with_fallback"
proof -
  have 1: "fst (registerDef ex_from_schema ex_with_fallback) = Inl AliasAnalysisConflict"
    by (simp add: regdef_defs checkSchemaCompatibility_def schema_eq_def ex_with_fallback_fields
        ex_from_schema_def ex_add_node_def ex_default_def)
  have 2: "fst (registerFallback 1 ex_cpu_kernel ex_with_fallback) = Inl DuplicateFallback"
    by (simp add: fallback_defs ex_with_fallback_fields)
  from rejected_registration_keeps_registry
    [of ex_from_schema ex_with_fallback AliasAnalysisConflict 1 ex_cpu_kernel DuplicateFallback]
    1 2
  show ?thesis by simp
qed


section \<open>Lifetime of an operator entry\<close>

lemma ex_listening_fields:
  "operators ex_listening = [0]"
  "nodes ex_listening = [0 \<mapsto> ex_add_node]"
  "operatorLookupTable ex_listening = [ex_add \<mapsto> 0]"
  "listeners ex_listening = [5]"
  by (simp_all add: ex_listening_def regdef_defs addRegistrationListener_def
      replay_registered_eq Dispatcher_init_def ex_default_def ex_add_node_def)

lemma ex_released_reachable:
  "reachable (snd (release (DefToken 0 ex_add) ex_defined)) []"
  using reachable.released [OF ex_defined_reachable _ surjective_pairing,
      of "DefToken 0 ex_add"]
  by simp

lemma tok_for_node:
  assumes "t \<in> set toks" "tok_is_def a t \<or> tok_is_impl a t" "tok_ok st t"
  shows "\<exists>d. nodes st a = Some d \<and> token_name t = Some (name (op d))"
  by (insert assms, cases t) (auto split: option.splits)

lemma token_name_node:
  assumes "token_name t = Some n" "tok_ok st t"
  shows "\<exists>a d. nodes st a = Some d \<and> name (op d) = n"
  by (insert assms, cases t) (auto split: option.splits)


text \<open>
  Claim C3.  In every reachable state an operator name is found by \<open>findOperatorByName\<close>
  exactly when some token registered for that name is still alive, and the same holds for
  the presence of an entry of that name in the list of operators: the entry is erased from
  both when its last token is released, and not before.  Every entry that is present has a
  positive \<open>def_and_impl_count\<close>.
\<close>

theorem operator_found_iff_token_live:
  assumes "reachable st toks"
  shows "(findOperatorByName n st \<noteq> None \<longleftrightarrow> (\<exists>t \<in> set toks. token_name t = Some n))
     \<and> ((\<exists>a \<in> set (operators st). \<exists>d. nodes st a = Some d \<and> name (op d) = n)
          \<longleftrightarrow> (\<exists>t \<in> set toks. token_name t = Some n))
     \<and> (\<forall>a \<in> set (operators st). \<exists>d. nodes st a = Some d \<and> 0 < def_and_impl_count d)"
proof -
  from assms have I: "inv st toks" by (rule reachable_inv)
  have live: "\<exists>t \<in> set toks. token_name t = Some (name (op d))" if N: "nodes st a = Some d" for a d
  proof -
    note C = invD(4) [OF I N]
    from node_countsD(1,2,3) [OF C]
    have "0 < length (filter (tok_is_def a) toks) \<or> 0 < length (filter (tok_is_impl a) toks)"
      by linarith
    then obtain t where t: "t \<in> set toks" "tok_is_def a t \<or> tok_is_impl a t"
      by (auto simp: filter_empty_conv)
    from tok_for_node [OF t invD(6) [OF I t(1)]] N t(1) show ?thesis by auto
  qed
  have node: "\<exists>a d. nodes st a = Some d \<and> name (op d) = n \<and> a \<in> set (operators st)
                \<and> operatorLookupTable st n = Some a"
    if "t \<in> set toks" "token_name t = Some n" for t
  proof -
    from token_name_node [OF that(2) invD(6) [OF I that(1)]]
    obtain a d where N: "nodes st a = Some d" "name (op d) = n" by blast
    from invD(3) [OF I N(1)] N show ?thesis by (auto simp: node_wf_def)
  qed
  have 1: "findOperatorByName n st \<noteq> None \<longleftrightarrow> (\<exists>t \<in> set toks. token_name t = Some n)"
  proof
    assume "findOperatorByName n st \<noteq> None"
    then obtain a where "operatorLookupTable st n = Some a"
      by (auto simp: findOperatorByName_def)
    from invD(5) [OF I this] obtain d where "nodes st a = Some d" "name (op d) = n" by blast
    with live [of a d] show "\<exists>t \<in> set toks. token_name t = Some n" by simp
  next
    assume "\<exists>t \<in> set toks. token_name t = Some n"
    with node show "findOperatorByName n st \<noteq> None"
      by (fastforce simp: findOperatorByName_def)
  qed
  have 2: "(\<exists>a \<in> set (operators st). \<exists>d. nodes st a = Some d \<and> name (op d) = n)
          \<longleftrightarrow> (\<exists>t \<in> set toks. token_name t = Some n)"
    using live node by blast
  have 3: "\<forall>a \<in> set (operators st). \<exists>d. nodes st a = Some d \<and> 0 < def_and_impl_count d"
  proof
    fix a assume "a \<in> set (operators st)"
    with invD(2) [OF I] obtain d where N: "nodes st a = Some d" by blast
    from node_countsD(3) [OF invD(4) [OF I N]] N
    show "\<exists>d. nodes st a = Some d \<and> 0 < def_and_impl_count d" by simp
  qed
  from 1 2 3 show ?thesis by blast
qed

theorem operator_found_iff_token_live_witness:
  "reachable ex_defined [DefToken 0 ex_add]
   \<and> findOperatorByName ex_add ex_defined = Some 0
   \<and> reachable (snd (release (DefToken 0 ex_add) ex_defined)) []
   \<and> findOperatorByName ex_add (snd (release (DefToken 0 ex_add) ex_defined)) = None"
proof -
  from operator_found_iff_token_live [OF ex_defined_reachable, of ex_add]
  have "findOperatorByName ex_add ex_defined \<noteq> None" by simp
  then have 1: "findOperatorByName ex_add ex_defined = Some 0"
    by (simp add: findOperatorByName_def ex_defined_fields)
  from operator_found_iff_token_live [OF ex_released_reachable, of ex_add]
  have 2: "findOperatorByName ex_add (snd (release (DefToken 0 ex_add) ex_defined)) = None"
    by simp
  from 1 2 ex_defined_reachable ex_released_reachable show ?thesis by simp
qed

section \<open>Lookup\<close>

text \<open>
  Claim C4.  \<open>findSchema\<close> returns a handle exactly when the name is in the lookup table
  and the entry it denotes has a schema.  If \<open>findSchema\<close> finds nothing for a name, then
  after \<open>registerImpl\<close> for that name \<open>findOperatorByName\<close> returns a handle and
  \<open>findSchema\<close> still returns nothing; in a reachable state that \<open>registerImpl\<close> returns
  a token.
\<close>

theorem findSchema_tells_impl_only_from_unknown:
  "(findSchema n st = Some h \<longleftrightarrow>
      findOperatorByName n st = Some h \<and> (\<exists>d. nodes st h = Some d \<and> schema (op d) \<noteq> None))
   \<and> (findSchema n st = None \<longrightarrow>
        findOperatorByName n (snd (registerImpl n k kf inferred dbg st)) \<noteq> None
        \<and> findSchema n (snd (registerImpl n k kf inferred dbg st)) = None)
   \<and> (reachable st toks \<longrightarrow> (\<exists>tok. fst (registerImpl n k kf inferred dbg st) = Inr tok))"
proof (intro conjI impI)
  show "findSchema n st = Some h \<longleftrightarrow>
      findOperatorByName n st = Some h \<and> (\<exists>d. nodes st h = Some d \<and> schema (op d) \<noteq> None)"
    by (auto simp: findSchema_def handle_hasSchema_def hasSchema_def findOperatorByName_def
        split: option.splits if_splits)
next
  assume none: "findSchema n st = None"
  let ?st = "snd (registerImpl n k kf inferred dbg st)"
  have "findOperatorByName n ?st \<noteq> None \<and> findSchema n ?st = None"
  proof (cases "operatorLookupTable st n")
    case None
    from registerImpl_fresh(3,4) [OF None, of k kf inferred dbg] show ?thesis
      by (simp add: findSchema_def handle_hasSchema_def hasSchema_def findOperatorByName_def)
  next
    case (Some a)
    show ?thesis
    proof (cases "nodes st a")
      case None
      from registerImpl_dangling(2) [OF Some None, of k kf inferred dbg] Some None show ?thesis
        by (simp add: findSchema_def handle_hasSchema_def hasSchema_def findOperatorByName_def
            snapshot_def)
    next
      case (Some d)
      from registerImpl_existing(3,4) [OF \<open>operatorLookupTable st n = Some a\<close> Some, of k kf inferred dbg]
        none \<open>operatorLookupTable st n = Some a\<close> Some
      show ?thesis
        by (simp add: findSchema_def handle_hasSchema_def hasSchema_def findOperatorByName_def
            split: if_splits)
    qed
  qed
  then show "findOperatorByName n ?st \<noteq> None" and "findSchema n ?st = None" by simp_all
next
  assume "reachable st toks"
  then have I: "inv st toks" by (rule reachable_inv)
  show "\<exists>tok. fst (registerImpl n k kf inferred dbg st) = Inr tok"
  proof (cases "operatorLookupTable st n")
    case None
    from registerImpl_fresh(1) [OF None] show ?thesis by blast
  next
    case (Some a)
    from invD(5) [OF I Some] obtain d where "nodes st a = Some d" by blast
    from registerImpl_existing(1) [OF Some this] show ?thesis by blast
  qed
qed

theorem findSchema_tells_impl_only_from_unknown_witness:
  "findSchema ex_add Dispatcher_init = None
   \<and> reachable Dispatcher_init []
   \<and> fst (registerImpl ex_add (Some 1) ex_cpu_kernel None ''cpu'' Dispatcher_init)
        = Inr (ImplToken 0 ex_add (Some 1) 1)
   \<and> findOperatorByName ex_add
        (snd (registerImpl ex_add (Some 1) ex_cpu_kernel None ''cpu'' Dispatcher_init)) = Some 0
   \<and> findSchema ex_add
        (snd (registerImpl ex_add (Some 1) ex_cpu_kernel None ''cpu'' Dispatcher_init)) = None"
proof -
  have 0: "findSchema ex_add Dispatcher_init = None"
    by (simp add: findSchema_def findOperatorByName_def Dispatcher_init_def)
  have L: "operatorLookupTable Dispatcher_init ex_add = None"
    by (simp add: Dispatcher_init_def)
  from findSchema_tells_impl_only_from_unknown
    [of ex_add Dispatcher_init 0 "Some 1" ex_cpu_kernel None "''cpu''" "[]"] 0
  have 1: "findSchema ex_add
        (snd (registerImpl ex_add (Some 1) ex_cpu_kernel None ''cpu'' Dispatcher_init)) = None"
    by simp
  from 0 1 reachable.init registerImpl_fresh(1,4) [OF L, of "Some 1" ex_cpu_kernel None "''cpu''"]
  show ?thesis by (simp add: findOperatorByName_def Dispatcher_init_def)
qed

section \<open>The two reference counts\<close>

lemma reachable_registerDef:
  assumes "reachable st toks"
  shows "\<exists>toks'. reachable (snd (registerDef s st)) toks'"
proof (cases "fst (registerDef s st)")
  case (Inl e)
  from reachable.def_rejected [OF assms, of s e "snd (registerDef s st)"] Inl
  show ?thesis by (auto simp: prod_eq_iff)
next
  case (Inr tok)
  from reachable.def_ok [OF assms, of s tok "snd (registerDef s st)"] Inr
  show ?thesis by (auto simp: prod_eq_iff)
qed

lemma reachable_registerImpl:
  assumes "reachable st toks"
  shows "\<exists>toks'. reachable (snd (registerImpl n k kf inferred dbg st)) toks'"
proof (cases "fst (registerImpl n k kf inferred dbg st)")
  case (Inl e)
  from reachable.impl_rejected [OF assms, of n k kf inferred dbg e
      "snd (registerImpl n k kf inferred dbg st)"] Inl
  show ?thesis by (auto simp: prod_eq_iff)
next
  case (Inr tok)
  from reachable.impl_ok [OF assms, of n k kf inferred dbg tok
      "snd (registerImpl n k kf inferred dbg st)"] Inr
  show ?thesis by (auto simp: prod_eq_iff)
qed

lemma reachable_release:
  assumes "reachable st toks" "tok \<in> set toks"
  shows "reachable (snd (release tok st)) (remove1 tok toks)"
  using reachable.released [OF assms surjective_pairing] .

lemma inv_counts_le:
  assumes "inv st toks" "nodes st a = Some d"
  shows "def_count d \<le> def_and_impl_count d"
  using node_countsD(2) [OF invD(4) [OF assms]] by simp

text \<open>
  Claim C5.  In every state reached by registrations and by releases of live tokens, each
  released at most once, every operator entry has \<open>def_count \<le> def_and_impl_count\<close>,
  and the inequality holds again after each of the operations that change the counts:
  \<open>registerDef\<close>, \<open>registerImpl\<close>, the release of a definition token and the release of
  a kernel token, with the \<open>cleanup\<close> they end in.  The release of a live token never
  fails.
\<close>

theorem def_count_le_def_and_impl_count:
  assumes "reachable st toks"
  shows "(\<forall>a d. nodes st a = Some d \<longrightarrow> def_count d \<le> def_and_impl_count d)
     \<and> (\<forall>a d. nodes (snd (registerDef s st)) a = Some d \<longrightarrow>
            def_count d \<le> def_and_impl_count d)
     \<and> (\<forall>a d. nodes (snd (registerImpl n k kf inferred dbg st)) a = Some d \<longrightarrow>
            def_count d \<le> def_and_impl_count d)
     \<and> (tok \<in> set toks \<longrightarrow>
          fst (release tok st) = Inr ()
          \<and> (\<forall>a d. nodes (snd (release tok st)) a = Some d \<longrightarrow>
                def_count d \<le> def_and_impl_count d))"
proof (intro conjI allI impI)
  fix a d
  show "def_count d \<le> def_and_impl_count d" if "nodes st a = Some d"
    using inv_counts_le [OF reachable_inv [OF assms] that] .
  show "def_count d \<le> def_and_impl_count d" if "nodes (snd (registerDef s st)) a = Some d"
    using reachable_registerDef [OF assms, of s] inv_counts_le [OF reachable_inv that]
    by blast
  show "def_count d \<le> def_and_impl_count d"
    if "nodes (snd (registerImpl n k kf inferred dbg st)) a = Some d"
    using reachable_registerImpl [OF assms, of n k kf inferred dbg]
      inv_counts_le [OF reachable_inv that]
    by blast
  show "def_count d \<le> def_and_impl_count d"
    if "tok \<in> set toks" "nodes (snd (release tok st)) a = Some d"
    using inv_counts_le [OF reachable_inv [OF reachable_release [OF assms that(1)]] that(2)] .
next
  assume "tok \<in> set toks"
  then show "fst (release tok st) = Inr ()"
    by (rule release_ok(1) [OF reachable_inv [OF assms]])
qed

theorem def_count_le_def_and_impl_count_witness:
  "reachable ex_defined [DefToken 0 ex_add]
   \<and> nodes ex_defined 0 = Some ex_add_node
   \<and> def_count ex_add_node \<le> def_and_impl_count ex_add_node
   \<and> fst (release (DefToken 0 ex_add) ex_defined) = Inr ()"
proof -
  have N: "nodes ex_defined 0 = Some ex_add_node" by (simp add: ex_defined_fields)
  from def_count_le_def_and_impl_count [OF ex_defined_reachable, where tok = "DefToken 0 ex_add"] N
  have "def_count ex_add_node \<le> def_and_impl_count ex_add_node"
    and "fst (release (DefToken 0 ex_add) ex_defined) = Inr ()" by simp_all
  with N ex_defined_reachable show ?thesis by simp
qed

section \<open>Listeners\<close>

text \<open>
  Claim C6.  When the release of a definition token brings \<open>def_count\<close> from one to
  zero, \<open>onOperatorDeregistered\<close> is called on every registered listener, in order, between
  taking and leaving the lock, and the registry each call finds still has the operator in
  the lookup table with its schema attached (\<open>findSchema\<close> returns the handle); when
  \<open>deregisterDef\<close> returns, \<open>findSchema\<close> no longer finds it.
\<close>

theorem deregisterDef_notifies_before_schema_removal:
  assumes "nodes st h = Some d" "schema (op d) = Some s" "operator_name s = n"
    "def_count d = 1" "0 < def_and_impl_count d" "operatorLookupTable st n = Some h"
  shows "\<exists>seen.
           trace (snd (deregisterDef h n st)) =
             trace st @ [LockAcquired]
               @ map (\<lambda>l. OnOperatorDeregistered l h seen) (listeners st) @ [LockReleased]
         \<and> findOperatorByName n seen = Some h \<and> findSchema n seen = Some h
         \<and> (\<exists>d'. nodes seen h = Some d' \<and> schema (op d') = Some s)
         \<and> findSchema n (snd (deregisterDef h n st)) = None"
  using assms
  apply (intro exI [where x = "snapshot (st\<lparr>nodes := (nodes st)(h \<mapsto>
           d\<lparr>def_count := 0, def_and_impl_count := def_and_impl_count d - 1\<rparr>)\<rparr>)"])
  apply (simp add: deregdef_defs findSchema_def handle_hasSchema_def hasSchema_def
      findOperatorByName_def snapshot_def)
  done

theorem deregisterDef_notifies_before_schema_removal_witness:
  "nodes ex_listening 0 = Some ex_add_node
   \<and> listeners ex_listening = [5]
   \<and> findSchema ex_add (snd (deregisterDef 0 ex_add ex_listening)) = None
   \<and> (\<exists>seen. trace (snd (deregisterDef 0 ex_add ex_listening)) =
          trace ex_listening @ [LockAcquired, OnOperatorDeregistered 5 0 seen, LockReleased]
        \<and> findSchema ex_add seen = Some 0)"
proof -
  have h: "nodes ex_listening 0 = Some ex_add_node" "schema (op ex_add_node) = Some ex_default"
    "operator_name ex_default = ex_add" "def_count ex_add_node = 1"
    "0 < def_and_impl_count ex_add_node" "operatorLookupTable ex_listening ex_add = Some 0"
    by (simp_all add: ex_listening_fields ex_add_node_def ex_default_def)
  from deregisterDef_notifies_before_schema_removal [OF h]
  obtain seen where
    "trace (snd (deregisterDef 0 ex_add ex_listening)) =
       trace ex_listening @ [LockAcquired]
         @ map (\<lambda>l. OnOperatorDeregistered l 0 seen) (listeners ex_listening) @ [LockReleased]"
    "findSchema ex_add seen = Some 0"
    "findSchema ex_add (snd (deregisterDef 0 ex_add ex_listening)) = None"
    by blast
  with h(1) show ?thesis by (auto simp: ex_listening_fields)
qed

text \<open>
  Claim C7.  \<open>addRegistrationListener\<close> calls \<open>onOperatorRegistered\<close> on the new listener
  once for each operator of the list whose \<open>def_count\<close> is positive, in the order of the
  list and with the registry as it was before the call (the new listener not yet in the
  listener list), and then appends the listener; operators with \<open>def_count = 0\<close> are
  skipped.  In a reachable state no operator occurs twice in the replay.
\<close>

theorem addRegistrationListener_replays_definitions:
  "trace (addRegistrationListener l st) =
     trace st @ [LockAcquired]
       @ map (\<lambda>a. OnOperatorRegistered l a (snapshot st)) (defined_operators st)
       @ [LockReleased]
   \<and> listeners (addRegistrationListener l st) = listeners st @ [l]
   \<and> listeners (snapshot st) = listeners st
   \<and> (reachable st toks \<longrightarrow> distinct (defined_operators st))"
proof (intro conjI impI)
  assume "reachable st toks"
  from invD(1) [OF reachable_inv [OF this]] show "distinct (defined_operators st)"
    by (simp add: defined_operators_def)
qed (simp_all add: addRegistrationListener_def replay_registered_eq emit_def Let_def
      defined_operators_def snapshot_def)

theorem addRegistrationListener_replays_definitions_witness:
  "reachable ex_defined [DefToken 0 ex_add]
   \<and> defined_operators ex_defined = [0]
   \<and> distinct (defined_operators ex_defined)
   \<and> trace (addRegistrationListener 5 ex_defined) =
        trace ex_defined @ [LockAcquired, OnOperatorRegistered 5 0 (snapshot ex_defined),
          LockReleased]
   \<and> listeners (addRegistrationListener 5 ex_defined) = [5]"
proof -
  have D: "defined_operators ex_defined = [0]"
    by (simp add: defined_operators_def ex_defined_fields ex_add_node_def)
  from addRegistrationListener_replays_definitions [of 5 ex_defined "[DefToken 0 ex_add]"]
    ex_defined_reachable D
  show ?thesis by (simp add: ex_defined_fields)
qed

section \<open>Backend fallbacks and the invariant check\<close>

lemma checkEntries_iff:
  "checkEntries entryCheck as st \<longleftrightarrow>
     (\<forall>a \<in> set as. \<forall>d. nodes st a = Some d \<longrightarrow> entryCheck (op d))"
  by (induction as) (auto split: option.splits)

lemma checkFallthroughs_iff:
  "checkFallthroughs i N st = Inr () \<longleftrightarrow>
     (\<forall>k. i \<le> k \<and> k < N \<longrightarrow> k \<notin> backendsWithoutFallthrough st \<longrightarrow>
        slot_isFallthrough (backendFallbackKernels st) k)"
proof (induction i N st rule: checkFallthroughs.induct)
  case (1 i N st)
  show ?case
  proof (cases "i < N")
    case False
    then show ?thesis by (subst checkFallthroughs.simps) auto
  next
    case True
    have le: "i \<le> k \<longleftrightarrow> k = i \<or> Suc i \<le> k" for k by arith
    have split: "(\<forall>k. i \<le> k \<and> k < N \<longrightarrow> P k) \<longleftrightarrow> P i \<and> (\<forall>k. Suc i \<le> k \<and> k < N \<longrightarrow> P k)" for P
      using True by (auto simp: le)
    show ?thesis
      using True "1.IH"
      by (subst checkFallthroughs.simps, subst split) auto
  qed
qed


text \<open>
  Claim C8.  In every reachable state each backend tag that is not in
  \<open>backendsWithoutFallthrough\<close> has a fallback kernel in the table, and that kernel is a
  fallthrough.  \<open>checkInvariants\<close> succeeds exactly when every operator entry passes its
  own check and this holds for every tag from 1 up to \<open>NumDispatchKeys - 1\<close> (the loop
  skips \<open>Undefined\<close>).  After a fallthrough kernel has been registered as the fallback of a
  tag the tag is not in the set; after the release of a fallback token its tag is in the
  set.
\<close>

theorem fallthrough_invariant:
  "(reachable st toks \<longrightarrow>
      (\<forall>k. k \<notin> backendsWithoutFallthrough st \<longrightarrow>
         (\<exists>kf. backendFallbackKernels st k = Some kf \<and> isFallthrough kf)))
   \<and> (checkInvariants entryCheck NumDispatchKeys st = Inr () \<longleftrightarrow>
        (\<forall>a \<in> set (operators st). \<forall>d. nodes st a = Some d \<longrightarrow> entryCheck (op d))
        \<and> (\<forall>k. 1 \<le> k \<and> k < NumDispatchKeys \<longrightarrow> k \<notin> backendsWithoutFallthrough st \<longrightarrow>
              (\<exists>kf. backendFallbackKernels st k = Some kf \<and> isFallthrough kf)))
   \<and> (isFallthrough kf \<longrightarrow> fst (registerFallback k kf st) = Inr (FallbackToken k) \<longrightarrow>
        k \<notin> backendsWithoutFallthrough (snd (registerFallback k kf st)))
   \<and> k \<in> backendsWithoutFallthrough (snd (release (FallbackToken k) st))"
proof -
  have sl: "slot_isFallthrough t k' \<longleftrightarrow> (\<exists>kf. t k' = Some kf \<and> isFallthrough kf)" for t k'
    by (auto simp: slot_isFallthrough_def split: option.splits)
  have 1: "\<forall>k. k \<notin> backendsWithoutFallthrough st \<longrightarrow>
         (\<exists>kf. backendFallbackKernels st k = Some kf \<and> isFallthrough kf)" if "reachable st toks"
    using invD(9) [OF reachable_inv [OF that]] by (simp add: sl)
  have 2: "checkInvariants entryCheck NumDispatchKeys st = Inr () \<longleftrightarrow>
        (\<forall>a \<in> set (operators st). \<forall>d. nodes st a = Some d \<longrightarrow> entryCheck (op d))
        \<and> (\<forall>k. 1 \<le> k \<and> k < NumDispatchKeys \<longrightarrow> k \<notin> backendsWithoutFallthrough st \<longrightarrow>
              (\<exists>kf. backendFallbackKernels st k = Some kf \<and> isFallthrough kf))"
    by (simp add: checkInvariants_def checkEntries_iff checkFallthroughs_iff sl)
  have 3: "k \<notin> backendsWithoutFallthrough (snd (registerFallback k kf st))"
    if "isFallthrough kf" "fst (registerFallback k kf st) = Inr (FallbackToken k)"
    using that by (auto simp: fallback_defs split: option.splits if_splits)
  have 4: "k \<in> backendsWithoutFallthrough (snd (release (FallbackToken k) st))"
    by (auto simp: fallback_defs split: option.splits)
  from 1 2 3 4 show ?thesis by blast
qed

theorem fallthrough_invariant_witness:
  "reachable Dispatcher_init []
   \<and> isFallthrough ex_fallthrough
   \<and> fst (registerFallback 3 ex_fallthrough Dispatcher_init) = Inr (FallbackToken 3)
   \<and> 3 \<notin> backendsWithoutFallthrough (snd (registerFallback 3 ex_fallthrough Dispatcher_init))
   \<and> 3 \<in> backendsWithoutFallthrough
        (snd (release (FallbackToken 3) (snd (registerFallback 3 ex_fallthrough Dispatcher_init))))
   \<and> checkInvariants (\<lambda>e. True) 8 (snd (registerFallback 3 ex_fallthrough Dispatcher_init))
        = Inr ()"
proof -
  let ?st = "snd (registerFallback 3 ex_fallthrough Dispatcher_init)"
  have 1: "isFallthrough ex_fallthrough"
    "fst (registerFallback 3 ex_fallthrough Dispatcher_init) = Inr (FallbackToken 3)"
    by (simp_all add: ex_fallthrough_def fallback_defs Dispatcher_init_def)
  from fallthrough_invariant [where st = Dispatcher_init and toks = "[]"
      and entryCheck = "\<lambda>e. True" and NumDispatchKeys = 8 and kf = ex_fallthrough and k = 3] 1
  have 2: "3 \<notin> backendsWithoutFallthrough ?st" by simp
  have F: "operators ?st = []" "backendsWithoutFallthrough ?st = UNIV - {3}"
    "backendFallbackKernels ?st = [3 \<mapsto> ex_fallthrough]"
    by (simp_all add: ex_fallthrough_def fallback_defs Dispatcher_init_def)
  note T = fallthrough_invariant [where st = ?st and toks = "[]" and entryCheck = "\<lambda>e. True"
      and NumDispatchKeys = 8 and kf = ex_fallthrough and k = 3]
  from T have 3: "3 \<in> backendsWithoutFallthrough (snd (release (FallbackToken 3) ?st))"
    by blast
  from T have "checkInvariants (\<lambda>e. True) 8 ?st = Inr () \<longleftrightarrow>
      (\<forall>a \<in> set (operators ?st). \<forall>d. nodes ?st a = Some d \<longrightarrow> True)
      \<and> (\<forall>k. 1 \<le> k \<and> k < 8 \<longrightarrow> k \<notin> backendsWithoutFallthrough ?st \<longrightarrow>
            (\<exists>kf. backendFallbackKernels ?st k = Some kf \<and> isFallthrough kf))"
    by blast
  also have "\<dots>" unfolding F by (simp add: ex_fallthrough_def)
  finally have 4: "checkInvariants (\<lambda>e. True) 8 ?st = Inr ()" by simp
  from 1 2 3 4 reachable.init show ?thesis by simp
qed

section \<open>Kernel registrations and listeners\<close>

lemma callbacks_simps [simp]:
  "callbacks (xs @ ys) = callbacks xs @ callbacks ys"
  "callbacks [] = []"
  "callbacks (LockAcquired # xs) = callbacks xs"
  "callbacks (LockReleased # xs) = callbacks xs"
  "callbacks (OnOperatorRegistered l h seen # xs) = OnOperatorRegistered l h seen # callbacks xs"
  "callbacks (OnOperatorDeregistered l h seen # xs) = OnOperatorDeregistered l h seen # callbacks xs"
  by (simp_all add: callbacks_def is_callback_def)

lemma registerImpl_trace:
  "trace (snd (registerImpl n k kf inferred dbg st)) = trace st @ [LockAcquired, LockReleased]"
  by (simp add: regimpl_defs split: option.splits)

lemma deregisterImpl_trace:
  "trace (snd (deregisterImpl h n k kh st)) = trace st @ [LockAcquired, LockReleased]"
  by (simp add: deregimpl_defs split: option.splits sum.splits)


text \<open>
  Claim C9.  \<open>registerImpl\<close> and the release of a kernel token call no listener: the
  listener calls in the trace are the same before and after.  \<open>registerDef\<close> calls
  listeners only when the operator's \<open>def_count\<close> goes from zero to one, and the release
  of a definition token only when it goes from one to zero.
\<close>

theorem kernel_registration_is_silent:
  "callbacks (trace (snd (registerImpl n k kf inferred dbg st))) = callbacks (trace st)
   \<and> callbacks (trace (snd (deregisterImpl h n k kh st))) = callbacks (trace st)
   \<and> (callbacks (trace (snd (registerDef s st))) \<noteq> callbacks (trace st) \<longrightarrow>
        def_count_of (operator_name s) st = 0
        \<and> def_count_of (operator_name s) (snd (registerDef s st)) = 1)
   \<and> (callbacks (trace (snd (deregisterDef h n st))) \<noteq> callbacks (trace st) \<longrightarrow>
        (\<exists>d. nodes st h = Some d \<and> def_count d = 1)
        \<and> (case nodes (snd (deregisterDef h n st)) h of
              None \<Rightarrow> True | Some d' \<Rightarrow> def_count d' = 0))"
proof (intro conjI impI)
  show "callbacks (trace (snd (registerImpl n k kf inferred dbg st))) = callbacks (trace st)"
    by (simp add: registerImpl_trace)
  show "callbacks (trace (snd (deregisterImpl h n k kh st))) = callbacks (trace st)"
    by (simp add: deregisterImpl_trace)
next
  assume "callbacks (trace (snd (registerDef s st))) \<noteq> callbacks (trace st)"
  then have "def_count_of (operator_name s) st = 0
        \<and> def_count_of (operator_name s) (snd (registerDef s st)) = 1"
    by (auto simp: regdef_defs def_count_of_def split: option.splits sum.splits if_splits)
  then show "def_count_of (operator_name s) st = 0"
    and "def_count_of (operator_name s) (snd (registerDef s st)) = 1" by simp_all
next
  assume "callbacks (trace (snd (deregisterDef h n st))) \<noteq> callbacks (trace st)"
  then have "(\<exists>d. nodes st h = Some d \<and> def_count d = 1)
        \<and> (case nodes (snd (deregisterDef h n st)) h of
              None \<Rightarrow> True | Some d' \<Rightarrow> def_count d' = 0)"
    by (auto simp: deregdef_defs split: option.splits sum.splits if_splits)
  then show "\<exists>d. nodes st h = Some d \<and> def_count d = 1"
    and "case nodes (snd (deregisterDef h n st)) h of
              None \<Rightarrow> True | Some d' \<Rightarrow> def_count d' = 0" by simp_all
qed

theorem kernel_registration_is_silent_witness:
  "callbacks (trace ex_listening) \<noteq> callbacks (trace (addRegistrationListener 5 Dispatcher_init))
   \<and> def_count_of ex_add (addRegistrationListener 5 Dispatcher_init) = 0
   \<and> def_count_of ex_add ex_listening = 1
   \<and> callbacks (trace (snd (deregisterDef 0 ex_add ex_listening)))
        \<noteq> callbacks (trace ex_listening)
   \<and> nodes (snd (deregisterDef 0 ex_add ex_listening)) 0 = None
   \<and> callbacks (trace (snd (registerImpl ex_add None ex_cpu_kernel None [] ex_listening)))
        = callbacks (trace ex_listening)"
proof -
  let ?st0 = "addRegistrationListener 5 Dispatcher_init"
  have 1: "callbacks (trace (snd (registerDef ex_default ?st0))) \<noteq> callbacks (trace ?st0)"
    by (simp add: regdef_defs addRegistrationListener_def replay_registered_eq
        Dispatcher_init_def)
  from kernel_registration_is_silent [where st = ?st0 and s = ex_default] 1
  have 2: "def_count_of ex_add ?st0 = 0" "def_count_of ex_add ex_listening = 1"
    by (simp_all add: ex_listening_def ex_default_def)
  have 3: "callbacks (trace (snd (deregisterDef 0 ex_add ex_listening)))
        \<noteq> callbacks (trace ex_listening)"
    by (simp add: deregdef_defs ex_listening_fields ex_add_node_def ex_default_def)
  have 4: "nodes (snd (deregisterDef 0 ex_add ex_listening)) 0 = None"
    by (simp add: deregdef_defs ex_listening_fields ex_add_node_def ex_default_def)
  from kernel_registration_is_silent [where st = ex_listening and n = ex_add and k = None
      and kf = ex_cpu_kernel and inferred = None and dbg = "[]"]
  have 5: "callbacks (trace (snd (registerImpl ex_add None ex_cpu_kernel None [] ex_listening)))
        = callbacks (trace ex_listening)" by simp
  from 1 2 3 4 5 show ?thesis by (simp add: ex_listening_def)
qed

section \<open>The writer lock\<close>

text \<open>
  Claim C10.  \<open>registerFallback\<close> and the release of a fallback token change the fallback
  table and the set of backends without fallthrough without taking the lock: they add
  nothing to the trace, where \<open>registerImpl\<close> adds the taking and the leaving of the lock.
\<close>

theorem fallback_operations_take_no_lock:
  "trace (snd (registerFallback k kf st)) = trace st
   \<and> trace (snd (deregisterFallback k st)) = trace st
   \<and> trace (snd (registerImpl n k' kf' inferred dbg st)) = trace st @ [LockAcquired, LockReleased]"
  by (simp add: registerImpl_trace) (auto simp: fallback_defs split: option.splits)

end
